theory Spec2Isabelle
  imports Complex_Main "HOL-Library.Multiset" "HOL-Library.Word"
begin

section \<open>Laser trainer: detection, corner ordering, scoring and the round state machine\<close>

text \<open>
  The development embeds the component \<open>LaserTrainer\<close> (the file with \<open>processFrame\<close>,
  \<open>lockTarget\<close>, \<open>handleShot\<close>, \<open>finishRound\<close>, \<open>startNewRound\<close> and \<open>resetToSetup\<close>).
  JavaScript numbers are modelled as reals (pixel bytes and timestamps as the integers
  they are), React state as a record that every handler receives and returns, and pending
  \<open>setTimeout\<close> callbacks as data in that record.

  Every handler runs at one instant: all reads of \<open>Date.now()\<close> within one call give the
  same time. Every handler sees the state left by the previous event. In the source
  \<open>processFrame\<close> and \<open>handleShot\<close> are closures over one render, and each change of
  \<open>currentRoundShots\<close> or \<open>history\<close> comes together with a change of \<open>mode\<close> or
  \<open>cooldownRemaining\<close>, on which the closure is rebuilt; the last shot time is a ref and
  always current.
\<close>

subsection \<open>The laser scan of \<open>processFrame\<close>\<close>

type_synonym byte = "8 word"

text \<open>
  \<open>data[i]\<close> on the \<open>Uint8ClampedArray\<close> of the frame: the byte as a number, and
  \<open>undefined\<close> (here \<open>None\<close>) past the end of the buffer.
\<close>

definition sample :: "byte list \<Rightarrow> nat \<Rightarrow> nat option" where
  "sample data i = (if i < length data then Some (unat (data ! i)) else None)"

text \<open>
  The test \<open>r > settings.threshold && r > (g * 1.5) && r > (b * 1.5)\<close> at byte offset
  \<open>i\<close>. A comparison with \<open>undefined\<close> is false in JavaScript.
\<close>

definition qualifies :: "byte list \<Rightarrow> int \<Rightarrow> nat \<Rightarrow> bool" where
  "qualifies data threshold i =
     (case (sample data i, sample data (i + 1), sample data (i + 2)) of
        (Some r, Some g, Some b) \<Rightarrow>
           int r > threshold \<and> real r > real g * 1.5 \<and> real r > real b * 1.5
      | _ \<Rightarrow> False)"

text \<open>
  The loop \<open>for (let i = 0; i < data.length; i += 4 * 2)\<close> with its two running
  variables \<open>maxVal\<close> and \<open>maxIdx\<close>.
\<close>

function scanLoop :: "byte list \<Rightarrow> int \<Rightarrow> nat \<Rightarrow> nat \<times> int \<Rightarrow> nat \<times> int" where
  "scanLoop data threshold i (maxVal, maxIdx) =
     (if i < length data then
        (let r = unat (data ! i) in
         if qualifies data threshold i \<and> r > maxVal
         then scanLoop data threshold (i + 4 * 2) (r, int i)
         else scanLoop data threshold (i + 4 * 2) (maxVal, maxIdx))
      else (maxVal, maxIdx))"
  by pat_completeness auto
termination
  by (relation "measure (\<lambda>(data, threshold, i, acc). length data - i)") auto

declare scanLoop.simps [simp del]

definition scanFrame :: "byte list \<Rightarrow> int \<Rightarrow> int" where
  "scanFrame data threshold = snd (scanLoop data threshold 0 (0, -1))"

text \<open>
  The winner's coordinate: \<open>pixelIdx = maxIdx / 4\<close>, \<open>x = pixelIdx % canvas.width\<close>,
  \<open>y = Math.floor(pixelIdx / canvas.width)\<close>; nothing when \<open>maxIdx\<close> is still \<open>-1\<close>.
\<close>

definition detectLaser :: "byte list \<Rightarrow> int \<Rightarrow> nat \<Rightarrow> (nat \<times> nat) option" where
  "detectLaser data threshold width =
     (let maxIdx = scanFrame data threshold in
      if maxIdx \<noteq> -1 then
        (let pixelIdx = nat maxIdx div 4 in Some (pixelIdx mod width, pixelIdx div width))
      else None)"

text \<open>The byte offsets the loop visits, and the red value read there.\<close>

definition sampled :: "byte list \<Rightarrow> nat \<Rightarrow> bool" where
  "sampled data i = (i < length data \<and> i mod 8 = 0)"

definition red :: "byte list \<Rightarrow> nat \<Rightarrow> nat" where
  "red data i = unat (data ! i)"

text \<open>
  The loop invariant: before the iteration at offset \<open>i\<close>, either nothing visited so far
  qualified, or \<open>maxIdx\<close> is the earliest visited qualifying offset of maximal red value.
\<close>

definition scanInv :: "byte list \<Rightarrow> int \<Rightarrow> nat \<Rightarrow> nat \<times> int \<Rightarrow> bool" where
  "scanInv data threshold i acc =
     (case acc of (maxVal, maxIdx) \<Rightarrow>
        (maxIdx = -1 \<and> maxVal = 0 \<and>
           (\<forall>j<i. sampled data j \<longrightarrow> \<not> qualifies data threshold j))
      \<or> (0 \<le> maxIdx \<and> nat maxIdx < i \<and> sampled data (nat maxIdx)
           \<and> qualifies data threshold (nat maxIdx) \<and> red data (nat maxIdx) = maxVal
           \<and> (\<forall>j<i. sampled data j \<and> qualifies data threshold j \<longrightarrow>
                 red data j \<le> maxVal \<and> (red data j = maxVal \<longrightarrow> nat maxIdx \<le> j))))"

subsection \<open>Data of the component\<close>

text \<open>
  \<open>Point\<close> is \<open>{x, y}\<close>; \<open>Corner\<close> is the object \<open>{...p, sum, diff}\<close> that \<open>lockTarget\<close>
  builds for each point (fields \<open>x\<close>, \<open>y\<close>, \<open>sum\<close>, \<open>diff\<close> of the source).
\<close>

record Point =
  px :: real
  py :: real

record Corner = Point +
  psum :: real
  pdiff :: real

datatype AppMode = SETUP | SHOOT | ROUND_OVER

datatype SetupType = AUTO | MANUAL

text \<open>
  A \<open>Shot\<close> as \<open>handleShot\<close> creates it (\<open>shotX\<close>, \<open>shotY\<close> for the source's \<open>x\<close>,
  \<open>y\<close>). \<open>shotId\<close> is the number whose decimal text is the source's \<open>id\<close>; the
  locale-formatted \<open>timeString\<close> is display text and is left out, as is the \<open>timestamp\<close>
  string of a \<open>RoundHistory\<close> entry.
\<close>

record Shot =
  shotId :: int
  shotX :: real
  shotY :: real
  score :: int
  timestamp :: int
  roundId :: nat

record RoundHistory =
  roundNumber :: nat
  totalScore :: int
  shots :: "Shot list"

record ProcessorSettings =
  threshold :: int
  minArea :: int
  cooldown :: int

text \<open>
  The two calls into the external vision library \<open>window.cv\<close> that the state machine
  depends on are parameters of the model: \<open>cv.getPerspectiveTransform(srcMat, dstMat)\<close> on
  the two coordinate arrays, and \<open>cv.perspectiveTransform\<close> on one point, where \<open>None\<close> is
  an exception (which \<open>processFrame\<close> catches and ignores).
\<close>

record 'm CV =
  getPerspectiveTransform :: "real list \<Rightarrow> real list \<Rightarrow> 'm"
  perspectiveTransform :: "'m \<Rightarrow> real \<times> real \<Rightarrow> (real \<times> real) option"

text \<open>
  What one animation frame brings: the quadrilateral the contour search of the AUTO setup
  selected (\<open>bestApprox\<close>, always four points when present), the RGBA bytes of the canvas
  and the canvas width.
\<close>

record Frame =
  bestApprox :: "(Point \<times> Point \<times> Point \<times> Point) option"
  frameData :: "byte list"
  frameWidth :: nat

text \<open>
  The React state and refs of the component, followed by the callbacks that are scheduled
  but have not run yet: \<open>cooldownTimer\<close> is the due time of the timeout of the cooldown
  effect, \<open>roundTimers\<close> the pending \<open>setTimeout(() => finishRound(updated), 1500)\<close> calls
  in the order they were made, each with its due time and the shots it captured.
  \<open>clock\<close> is the time of the latest event. State that only drives rendering, sound or
  the camera (\<open>potentialQuad\<close>, \<open>showDebug\<close>, \<open>draggingIdx\<close>, \<open>cameraError\<close>,
  \<open>isCameraActive\<close>, \<open>audioEnabled\<close>) is left out; the camera is taken to be running.
\<close>

record 'm State =
  mode :: AppMode
  setupType :: SetupType
  currentRoundShots :: "Shot list"
  history :: "RoundHistory list"
  settings :: ProcessorSettings
  cooldownRemaining :: int
  targetFound :: bool
  targetQuad :: "Point list"
  manualPoints :: "Point list"
  transformMatrix :: "'m option"
  lastShotTimestamp :: int
  cooldownTimer :: "int option"
  roundTimers :: "(int \<times> Shot list) list"
  clock :: int

definition mkPoint :: "real \<Rightarrow> real \<Rightarrow> Point" where
  "mkPoint a b = \<lparr>px = a, py = b\<rparr>"

definition initState :: "'m State" where
  "initState =
     \<lparr>mode = SETUP, setupType = AUTO, currentRoundShots = [], history = [],
      settings = \<lparr>threshold = 200, minArea = 2, cooldown = 3000\<rparr>,
      cooldownRemaining = 0, targetFound = False, targetQuad = [],
      manualPoints = [mkPoint 100 100, mkPoint 500 100, mkPoint 500 400, mkPoint 100 400],
      transformMatrix = None, lastShotTimestamp = 0,
      cooldownTimer = None, roundTimers = [], clock = 0\<rparr>"

subsection \<open>Corner ordering in \<open>lockTarget\<close>\<close>

definition withSumDiff :: "Point \<Rightarrow> Corner" where
  "withSumDiff p = \<lparr>px = px p, py = py p, psum = px p + py p, pdiff = py p - px p\<rparr>"

text \<open>
  The four \<open>pts.reduce(..., pts[0])\<close> calls. On an empty array \<open>pts[0]\<close> is
  \<open>undefined\<close> and reading \<open>tl.x\<close> throws: \<open>None\<close>.
\<close>

definition orderCorners :: "Point list \<Rightarrow> (Corner \<times> Corner \<times> Corner \<times> Corner) option" where
  "orderCorners finalQuad =
     (let pts = map withSumDiff finalQuad in
      case pts of
        [] \<Rightarrow> None
      | p0 # _ \<Rightarrow>
          (let tl' = foldl (\<lambda>prev curr. if psum curr < psum prev then curr else prev) p0 pts;
               br' = foldl (\<lambda>prev curr. if psum curr > psum prev then curr else prev) p0 pts;
               tr' = foldl (\<lambda>prev curr. if pdiff curr < pdiff prev then curr else prev) p0 pts;
               bl' = foldl (\<lambda>prev curr. if pdiff curr > pdiff prev then curr else prev) p0 pts
           in Some (tl', tr', br', bl')))"

text \<open>
  Geometry used to state the properties of the ordering: the cross product of two
  consecutive edges, a quadrilateral given by its vertices in cyclic order that turns the
  same way at every vertex, and four points on one line.
\<close>

definition cross :: "Point \<Rightarrow> Point \<Rightarrow> Point \<Rightarrow> real" where
  "cross a b c = (px b - px a) * (py c - py b) - (py b - py a) * (px c - px b)"

definition convexQuad :: "Point \<Rightarrow> Point \<Rightarrow> Point \<Rightarrow> Point \<Rightarrow> bool" where
  "convexQuad a b c d =
     ((cross a b c > 0 \<and> cross b c d > 0 \<and> cross c d a > 0 \<and> cross d a b > 0)
    \<or> (cross a b c < 0 \<and> cross b c d < 0 \<and> cross c d a < 0 \<and> cross d a b < 0))"


subsection \<open>Scoring in \<open>handleShot\<close>\<close>

definition centerDist :: "real \<Rightarrow> real \<Rightarrow> real" where
  "centerDist tx ty = (let cx = 250; cy = 350 in sqrt ((tx - cx)\<^sup>2 + (ty - cy)\<^sup>2))"

definition shotScore :: "real \<Rightarrow> real \<Rightarrow> int" where
  "shotScore tx ty =
     (let dist = centerDist tx ty;
          rawScore = 10 - floor ((dist / 250) * 10)
      in max 0 (min 10 rawScore))"

subsection \<open>The handlers\<close>

definition lockTarget :: "'m CV \<Rightarrow> 'm State \<Rightarrow> 'm State" where
  "lockTarget cv st =
     (if setupType st = AUTO \<and> (\<not> targetFound st \<or> length (targetQuad st) \<noteq> 4) then st
      else
        (let finalQuad = (if setupType st = AUTO then targetQuad st else manualPoints st) in
         case orderCorners finalQuad of
           None \<Rightarrow> st
         | Some (tl', tr', br', bl') \<Rightarrow>
             (let srcMat = [px tl', py tl', px tr', py tr', px br', py br', px bl', py bl'];
                  dstMat = [0, 0, 500, 0, 500, 700, 0, 700]
              in st\<lparr>transformMatrix := Some (getPerspectiveTransform cv srcMat dstMat),
                    mode := SHOOT,
                    currentRoundShots := []\<rparr>)))"

definition handleShot :: "'m State \<Rightarrow> int \<Rightarrow> real \<Rightarrow> real \<Rightarrow> 'm State" where
  "handleShot st now tx ty =
     (if now - lastShotTimestamp st < 500 then st
      else
        (let newShot = \<lparr>shotId = now, shotX = tx, shotY = ty, score = shotScore tx ty,
                        timestamp = now, roundId = length (history st) + 1\<rparr>;
             updated = currentRoundShots st @ [newShot]
         in st\<lparr>lastShotTimestamp := now,
               cooldownRemaining := 3,
               currentRoundShots := updated,
               roundTimers := (if length updated \<ge> 5
                               then roundTimers st @ [(now + 1500, updated)]
                               else roundTimers st)\<rparr>))"

definition finishRound :: "Shot list \<Rightarrow> 'm State \<Rightarrow> 'm State" where
  "finishRound shs st =
     (let total = foldl (\<lambda>a b. a + score b) 0 shs in
      st\<lparr>history := \<lparr>roundNumber = length (history st) + 1, totalScore = total, shots = shs\<rparr>
                       # history st,
         mode := ROUND_OVER\<rparr>)"

definition startNewRound :: "'m State \<Rightarrow> 'm State" where
  "startNewRound st = st\<lparr>mode := SHOOT, cooldownRemaining := 0, currentRoundShots := []\<rparr>"

definition resetToSetup :: "'m State \<Rightarrow> 'm State" where
  "resetToSetup st =
     st\<lparr>mode := SETUP, targetFound := False, currentRoundShots := [], cooldownRemaining := 0\<rparr>"

text \<open>
  One call of \<open>processFrame\<close> at time \<open>now\<close>. The function returns early while the video has
  no width (the canvas takes the video's width). In SETUP with AUTO input it stores the
  selected quadrilateral; in SHOOT, with a matrix and no cooldown, it applies the debounce,
  scans the frame, maps the winner and hands a point inside the tolerance margin to
  \<open>handleShot\<close>.
\<close>

definition processFrame :: "'m CV \<Rightarrow> 'm State \<Rightarrow> int \<Rightarrow> Frame \<Rightarrow> 'm State" where
  "processFrame cv st now f =
     (if frameWidth f = 0 then st
      else if mode st = SETUP then
        (if setupType st = AUTO then
           (case bestApprox f of
              Some (a, b, c, d) \<Rightarrow> st\<lparr>targetFound := True, targetQuad := [a, b, c, d]\<rparr>
            | None \<Rightarrow> st\<lparr>targetFound := False\<rparr>)
         else st)
      else if mode st = SHOOT \<and> transformMatrix st \<noteq> None \<and> cooldownRemaining st = 0 then
        (if now - lastShotTimestamp st < 500 then st
         else
           (case detectLaser (frameData f) (threshold (settings st)) (frameWidth f) of
              None \<Rightarrow> st
            | Some (x, y) \<Rightarrow>
                (case perspectiveTransform cv (the (transformMatrix st)) (real x, real y) of
                   None \<Rightarrow> st
                 | Some (tx, ty) \<Rightarrow>
                     if tx \<ge> -20 \<and> tx \<le> 520 \<and> ty \<ge> -20 \<and> ty \<le> 720
                     then handleShot st now tx ty else st)))
      else st)"

subsection \<open>Timers and events\<close>

text \<open>
  The cooldown effect depends on \<open>cooldownRemaining\<close> only: when an event has changed that
  value, React clears the pending timeout and, if the new value is positive, schedules a
  new one 1000 ms later; when the value is unchanged the pending timeout stays.
\<close>

definition cooldownEffect :: "int \<Rightarrow> int \<Rightarrow> 'm State \<Rightarrow> 'm State" where
  "cooldownEffect prev now st =
     (if cooldownRemaining st = prev then st
      else st\<lparr>cooldownTimer := (if cooldownRemaining st > 0 then Some (now + 1000) else None)\<rparr>)"

definition cooldownTick :: "'m State \<Rightarrow> 'm State" where
  "cooldownTick st = st\<lparr>cooldownRemaining := cooldownRemaining st - 1\<rparr>"

text \<open>
  The events of a session: an animation frame, the three buttons, the setup controls
  (input-type toggle, dragging a manual corner, the sensitivity slider) and the two kinds
  of timeout.
\<close>

datatype Event =
    AnimationFrame Frame
  | LockTarget
  | StartNewRound
  | ResetToSetup
  | ToggleSetupType
  | MovePoint nat Point
  | SetThreshold int
  | CooldownTimeout
  | RoundTimeout

text \<open>
  When an event can happen at time \<open>t\<close>: time does not run backwards; a button can be
  clicked only while it is rendered and not disabled (the lock button in SETUP, unless
  AUTO has no target; NEXT ROUND in ROUND_OVER; the two reset buttons outside SETUP); a
  timeout fires no earlier than its due time, the oldest round timeout first. Dragging is
  allowed at any time for any of the four corners, which covers every way the source
  rewrites \<open>manualPointsRef\<close>.
\<close>

fun enabled :: "'m State \<Rightarrow> int \<Rightarrow> Event \<Rightarrow> bool" where
  "enabled st t (AnimationFrame f) = (clock st \<le> t)"
| "enabled st t LockTarget =
     (clock st \<le> t \<and> mode st = SETUP \<and> \<not> (setupType st = AUTO \<and> \<not> targetFound st))"
| "enabled st t StartNewRound = (clock st \<le> t \<and> mode st = ROUND_OVER)"
| "enabled st t ResetToSetup = (clock st \<le> t \<and> mode st \<noteq> SETUP)"
| "enabled st t ToggleSetupType = (clock st \<le> t \<and> mode st = SETUP)"
| "enabled st t (MovePoint i p) = (clock st \<le> t \<and> i < length (manualPoints st))"
| "enabled st t (SetThreshold v) = (clock st \<le> t \<and> mode st = SETUP \<and> 50 \<le> v \<and> v \<le> 255)"
| "enabled st t CooldownTimeout =
     (clock st \<le> t \<and> (case cooldownTimer st of None \<Rightarrow> False | Some due \<Rightarrow> due \<le> t))"
| "enabled st t RoundTimeout =
     (clock st \<le> t \<and> (case roundTimers st of [] \<Rightarrow> False | (due, shs) # rest \<Rightarrow> due \<le> t))"

fun handle :: "'m CV \<Rightarrow> 'm State \<Rightarrow> int \<Rightarrow> Event \<Rightarrow> 'm State" where
  "handle cv st t (AnimationFrame f) = processFrame cv st t f"
| "handle cv st t LockTarget = lockTarget cv st"
| "handle cv st t StartNewRound = startNewRound st"
| "handle cv st t ResetToSetup = resetToSetup st"
| "handle cv st t ToggleSetupType =
     st\<lparr>setupType := (if setupType st = AUTO then MANUAL else AUTO)\<rparr>"
| "handle cv st t (MovePoint i p) = st\<lparr>manualPoints := (manualPoints st)[i := p]\<rparr>"
| "handle cv st t (SetThreshold v) = st\<lparr>settings := (settings st)\<lparr>threshold := v\<rparr>\<rparr>"
| "handle cv st t CooldownTimeout = cooldownTick st"
| "handle cv st t RoundTimeout =
     (case roundTimers st of
        [] \<Rightarrow> st
      | (due, shs) # rest \<Rightarrow> finishRound shs (st\<lparr>roundTimers := rest\<rparr>))"

text \<open>
  One event: the handler runs on the current state, then the cooldown effect reacts to a
  changed \<open>cooldownRemaining\<close>. \<open>None\<close> when the event cannot happen.
\<close>

definition step :: "'m CV \<Rightarrow> 'm State \<Rightarrow> int \<times> Event \<Rightarrow> 'm State option" where
  "step cv st ev =
     (case ev of (t, e) \<Rightarrow>
        if enabled st t e
        then Some ((cooldownEffect (cooldownRemaining st) t (handle cv st t e))\<lparr>clock := t\<rparr>)
        else None)"

fun run :: "'m CV \<Rightarrow> 'm State \<Rightarrow> (int \<times> Event) list \<Rightarrow> 'm State option" where
  "run cv st [] = Some st"
| "run cv st (ev # evs) = (case step cv st ev of None \<Rightarrow> None | Some st' \<Rightarrow> run cv st' evs)"

subsection \<open>Example frames\<close>

definition exampleFrame :: "byte list" where
  "exampleFrame = [10, 0, 0, 255,  255, 0, 0, 255,  250, 10, 10, 255,  0, 0, 0, 255]"

definition tieFrame :: "byte list" where
  "tieFrame = [0, 0, 0, 255,  255, 0, 0, 255,  250, 10, 10, 255,  0, 0, 0, 255, 250, 0, 0, 255]"

subsection \<open>Vocabulary and example data for the corner ordering\<close>

text \<open>
  The two keys of the ordering, and the condition that a key has only one least (greatest)
  point in a list.
\<close>

definition coordSum :: "Point \<Rightarrow> real" where
  "coordSum p = px p + py p"

definition coordDiff :: "Point \<Rightarrow> real" where
  "coordDiff p = py p - px p"

definition uniqueLeast :: "(Point \<Rightarrow> real) \<Rightarrow> Point list \<Rightarrow> bool" where
  "uniqueLeast k xs =
     (\<forall>p\<in>set xs. \<forall>q\<in>set xs.
        (\<forall>r\<in>set xs. k p \<le> k r) \<and> (\<forall>r\<in>set xs. k q \<le> k r) \<longrightarrow> p = q)"

definition uniqueGreatest :: "(Point \<Rightarrow> real) \<Rightarrow> Point list \<Rightarrow> bool" where
  "uniqueGreatest k xs =
     (\<forall>p\<in>set xs. \<forall>q\<in>set xs.
        (\<forall>r\<in>set xs. k r \<le> k p) \<and> (\<forall>r\<in>set xs. k r \<le> k q) \<longrightarrow> p = q)"

definition extremesUnique :: "Point list \<Rightarrow> bool" where
  "extremesUnique xs =
     (uniqueLeast coordSum xs \<and> uniqueGreatest coordSum xs
      \<and> uniqueLeast coordDiff xs \<and> uniqueGreatest coordDiff xs)"

definition diamondA :: Point where "diamondA = mkPoint 0 1"
definition diamondB :: Point where "diamondB = mkPoint 1 0"
definition diamondC :: Point where "diamondC = mkPoint 2 1"
definition diamondD :: Point where "diamondD = mkPoint 1 2"

definition rectQuad :: "Point list" where
  "rectQuad = [mkPoint 0 0, mkPoint 4 0, mkPoint 4 2, mkPoint 0 2]"

definition rectQuadShuffled :: "Point list" where
  "rectQuadShuffled = [mkPoint 4 2, mkPoint 0 0, mkPoint 0 2, mkPoint 4 0]"

subsection \<open>Invariants and scenarios of the state machine\<close>

text \<open>
  The \<open>newShot\<close> object that \<open>handleShot\<close> builds at time \<open>t\<close> for the point
  \<open>(tx, ty)\<close>.
\<close>

definition acceptedShot :: "'m State \<Rightarrow> int \<Rightarrow> real \<Rightarrow> real \<Rightarrow> Shot" where
  "acceptedShot st t tx ty =
     \<lparr>shotId = t, shotX = tx, shotY = ty, score = shotScore tx ty,
      timestamp = t, roundId = length (history st) + 1\<rparr>"

text \<open>
  Invariants of the reachable states: without a matrix the session is in SETUP and no round
  timeout is pending; the manual corners are four, and so is a found target; the history
  carries the round numbers \<open>n, ..., 2, 1\<close> from its head on.
\<close>

definition matrixInv :: "'m State \<Rightarrow> bool" where
  "matrixInv st = (transformMatrix st = None \<longrightarrow> mode st = SETUP \<and> roundTimers st = [])"




text \<open>
  A stand-in for the vision library in the scenarios. The matrix is represented by the
  source coordinate array it was solved from; applying it is the exact projective map onto
  the 500 by 700 rectangle whenever the source corners (top-left, top-right, bottom-right,
  bottom-left) form an axis-aligned rectangle, which is the only case in which a scenario
  maps a point.
\<close>

definition rectApply :: "real list \<Rightarrow> real \<times> real \<Rightarrow> (real \<times> real) option" where
  "rectApply m p =
     (case m of
        [x0, y0, x1, y1, x2, y2, x3, y3] \<Rightarrow>
          if x2 = x0 \<or> y2 = y0 then None
          else Some (500 * (fst p - x0) / (x2 - x0), 700 * (snd p - y0) / (y2 - y0))
      | _ \<Rightarrow> None)"

definition rectCV :: "real list CV" where
  "rectCV = \<lparr>getPerspectiveTransform = (\<lambda>src dst. src), perspectiveTransform = rectApply\<rparr>"

text \<open>
  Scenario: switch to MANUAL input and confirm the default corners; then reset.
\<close>

definition manualLockTrace :: "(int \<times> Event) list" where
  "manualLockTrace = [(0, ToggleSetupType), (1000, LockTarget)]"

definition lockedState :: "real list State" where
  "lockedState = initState\<lparr>setupType := MANUAL,
      transformMatrix := Some [100, 100, 500, 100, 500, 400, 100, 400],
      mode := SHOOT, clock := 1000\<rparr>"

definition lockedResetState :: "real list State" where
  "lockedResetState = lockedState\<lparr>mode := SETUP, clock := 2000\<rparr>"




text \<open>
  Two predicates on states relative to a shot accepted at time \<open>t1\<close>: the last accepted
  shot is no older than \<open>c\<close>; and the cooldown counter, with its pending timeout, cannot
  reach zero before \<open>t1 + 3000\<close>.
\<close>

definition shotAfter :: "int \<Rightarrow> 'm State \<Rightarrow> bool" where
  "shotAfter c st = (c \<le> lastShotTimestamp st)"

definition cooldownInv :: "int \<Rightarrow> 'm State \<Rightarrow> bool" where
  "cooldownInv t1 st =
     (0 \<le> cooldownRemaining st
      \<and> (cooldownRemaining st = 0 \<longrightarrow> cooldownTimer st = None \<and> t1 + 3000 \<le> clock st)
      \<and> (0 < cooldownRemaining st \<longrightarrow>
           (\<exists>due. cooldownTimer st = Some due
                  \<and> t1 + 3000 \<le> due + (cooldownRemaining st - 1) * 1000)))"

text \<open>
  Scenario: a 4 by 3 pixel canvas whose manual corners are dragged to the rectangle from
  (0, 0) to (4, 2), so that pixel (2, 1) is mapped to the centre (250, 350) of the target;
  \<open>hitFrame\<close> shows a laser dot on exactly that pixel (row-major index 6).
\<close>

definition aimTrace :: "(int \<times> Event) list" where
  "aimTrace =
     [(0, ToggleSetupType), (100, MovePoint 0 (mkPoint 0 0)), (200, MovePoint 1 (mkPoint 4 0)),
      (300, MovePoint 2 (mkPoint 4 2)), (400, MovePoint 3 (mkPoint 0 2)), (1000, LockTarget)]"

definition hitFrame :: Frame where
  "hitFrame = \<lparr>bestApprox = None,
      frameData = [0, 0, 0, 255,  0, 0, 0, 255,  0, 0, 0, 255,  0, 0, 0, 255,
                   0, 0, 0, 255,  0, 0, 0, 255,  255, 0, 0, 255,  0, 0, 0, 255,
                   0, 0, 0, 255,  0, 0, 0, 255,  0, 0, 0, 255,  0, 0, 0, 255],
      frameWidth = 4\<rparr>"

definition aimedState :: "real list State" where
  "aimedState = initState\<lparr>setupType := MANUAL,
      manualPoints := [mkPoint 0 0, mkPoint 4 0, mkPoint 4 2, mkPoint 0 2],
      transformMatrix := Some [0, 0, 4, 0, 4, 2, 0, 2],
      mode := SHOOT, clock := 1000\<rparr>"

definition centerShot :: "int \<Rightarrow> Shot" where
  "centerShot t = \<lparr>shotId = t, shotX = 250, shotY = 350, score = 10, timestamp = t, roundId = 1\<rparr>"

definition firstShotState :: "real list State" where
  "firstShotState = aimedState\<lparr>lastShotTimestamp := 1000, cooldownRemaining := 3,
      currentRoundShots := [centerShot 1000], cooldownTimer := Some 2000\<rparr>"

definition relockedState :: "real list State" where
  "relockedState = aimedState\<lparr>lastShotTimestamp := 1000, clock := 1200\<rparr>"

definition secondShotState :: "real list State" where
  "secondShotState = aimedState\<lparr>lastShotTimestamp := 1500, cooldownRemaining := 3,
      currentRoundShots := [centerShot 1500], cooldownTimer := Some 2500, clock := 1500\<rparr>"

definition coolingState :: "real list State" where
  "coolingState = firstShotState\<lparr>cooldownRemaining := 1, cooldownTimer := Some 4000, clock := 3000\<rparr>"

text \<open>
  Scenario: five shots on the centre, 3000 ms apart, each followed by the three cooldown
  timeouts; the fifth shot at 13000 ms schedules the round timeout for 14500 ms.
\<close>

definition fourShotTrace :: "(int \<times> Event) list" where
  "fourShotTrace =
     [(1000, AnimationFrame hitFrame), (2000, CooldownTimeout), (3000, CooldownTimeout),
      (4000, CooldownTimeout),
      (4000, AnimationFrame hitFrame), (5000, CooldownTimeout), (6000, CooldownTimeout),
      (7000, CooldownTimeout),
      (7000, AnimationFrame hitFrame), (8000, CooldownTimeout), (9000, CooldownTimeout),
      (10000, CooldownTimeout),
      (10000, AnimationFrame hitFrame), (11000, CooldownTimeout), (12000, CooldownTimeout),
      (13000, CooldownTimeout)]"

definition roundShots :: "Shot list" where
  "roundShots = [centerShot 1000, centerShot 4000, centerShot 7000, centerShot 10000,
                 centerShot 13000]"

definition fourShotsState :: "real list State" where
  "fourShotsState = aimedState\<lparr>lastShotTimestamp := 10000,
      currentRoundShots := [centerShot 1000, centerShot 4000, centerShot 7000, centerShot 10000],
      clock := 13000\<rparr>"

definition fifthShotState :: "real list State" where
  "fifthShotState = aimedState\<lparr>lastShotTimestamp := 13000, cooldownRemaining := 3,
      currentRoundShots := roundShots, cooldownTimer := Some 14000,
      roundTimers := [(14500, roundShots)], clock := 13000\<rparr>"

definition resetPendingState :: "real list State" where
  "resetPendingState = fifthShotState\<lparr>mode := SETUP, cooldownRemaining := 0,
      currentRoundShots := [], cooldownTimer := None, clock := 13100\<rparr>"

definition staleSealedState :: "real list State" where
  "staleSealedState = resetPendingState\<lparr>roundTimers := [],
      history := [\<lparr>roundNumber = 1, totalScore = 50, shots = roundShots\<rparr>],
      mode := ROUND_OVER, clock := 14500\<rparr>"


section \<open>Properties\<close>

subsection \<open>The laser scan\<close>

lemma qualifies_pos:
  assumes "qualifies data thr i"
  shows "0 < red data i"
proof -
  from assms obtain r g :: nat where s: "sample data i = Some r" and c: "real r > real g * 1.5"
    unfolding qualifies_def by (auto split: option.splits)
  from s have r: "r = red data i"
    unfolding sample_def red_def by (simp split: if_splits)
  have "real g * 1.5 \<ge> 0" by simp
  with c have "real r > 0" by linarith
  with r show ?thesis by simp
qed

lemma sampled_step:
  "i mod 8 = 0 \<Longrightarrow> j < i + 8 \<Longrightarrow> sampled data j \<Longrightarrow> j < i \<or> j = i"
  unfolding sampled_def by presburger

lemma scanInv_step:
  assumes inv: "scanInv data thr i (maxVal, maxIdx)"
    and al: "i mod 8 = 0" and lt: "i < length data"
  shows "scanInv data thr (i + 8)
           (if qualifies data thr i \<and> red data i > maxVal then (red data i, int i)
            else (maxVal, maxIdx))"
proof (cases "qualifies data thr i \<and> red data i > maxVal")
  case True
  have s: "sampled data i" using al lt by (simp add: sampled_def)
  have old: "\<forall>j<i. sampled data j \<and> qualifies data thr j \<longrightarrow> red data j \<le> maxVal"
    using inv by (auto simp: scanInv_def)
  have "\<forall>j<i + 8. sampled data j \<and> qualifies data thr j \<longrightarrow>
          red data j \<le> red data i \<and> (red data j = red data i \<longrightarrow> i \<le> j)"
  proof (intro allI impI)
    fix j assume j: "j < i + 8" and q: "sampled data j \<and> qualifies data thr j"
    from sampled_step[OF al j] q have "j < i \<or> j = i" by blast
    then show "red data j \<le> red data i \<and> (red data j = red data i \<longrightarrow> i \<le> j)"
      using old q True by auto
  qed
  with True s show ?thesis by (simp add: scanInv_def)
next
  case False
  show ?thesis
  proof (cases "maxIdx = -1")
    case m: True
    then have mv: "maxVal = 0" and none: "\<forall>j<i. sampled data j \<longrightarrow> \<not> qualifies data thr j"
      using inv by (auto simp: scanInv_def)
    have nq: "\<not> qualifies data thr i"
      using False mv qualifies_pos[of data thr i] by auto
    have "\<forall>j<i + 8. sampled data j \<longrightarrow> \<not> qualifies data thr j"
      using none nq sampled_step[OF al] by blast
    with m mv nq show ?thesis by (simp add: scanInv_def)
  next
    case m: False
    then have old: "0 \<le> maxIdx" "nat maxIdx < i" "sampled data (nat maxIdx)"
        "qualifies data thr (nat maxIdx)" "red data (nat maxIdx) = maxVal"
        "\<forall>j<i. sampled data j \<and> qualifies data thr j \<longrightarrow>
                 red data j \<le> maxVal \<and> (red data j = maxVal \<longrightarrow> nat maxIdx \<le> j)"
      using inv by (auto simp: scanInv_def)
    have "\<forall>j<i + 8. sampled data j \<and> qualifies data thr j \<longrightarrow>
                 red data j \<le> maxVal \<and> (red data j = maxVal \<longrightarrow> nat maxIdx \<le> j)"
    proof (intro allI impI)
      fix j assume j: "j < i + 8" and q: "sampled data j \<and> qualifies data thr j"
      from sampled_step[OF al j] q have "j < i \<or> j = i" by blast
      then show "red data j \<le> maxVal \<and> (red data j = maxVal \<longrightarrow> nat maxIdx \<le> j)"
        using old q False by auto
    qed
    with False old show ?thesis by (auto simp: scanInv_def)
  qed
qed

lemma scanLoop_inv:
  "scanInv data thr i acc \<Longrightarrow> i mod 8 = 0 \<Longrightarrow>
   \<exists>n\<ge>length data. scanInv data thr n (scanLoop data thr i acc)"
proof (induction data thr i acc rule: scanLoop.induct)
  case (1 data thr i maxVal maxIdx)
  show ?case
  proof (cases "i < length data")
    case False
    then show ?thesis using "1.prems" by (subst scanLoop.simps) (auto intro!: exI[of _ i])
  next
    case True
    have al: "(i + 4 * 2) mod 8 = 0" using "1.prems"(2) by presburger
    have st: "scanInv data thr (i + 4 * 2)
           (if qualifies data thr i \<and> red data i > maxVal then (red data i, int i)
            else (maxVal, maxIdx))"
      using scanInv_step[OF "1.prems"(1) "1.prems"(2) True] by simp
    show ?thesis
    proof (cases "qualifies data thr i \<and> unat (data ! i) > maxVal")
      case q: True
      from "1.IH"(1)[OF True refl q _ al] st q
      show ?thesis using True by (subst scanLoop.simps) (simp add: red_def Let_def)
    next
      case q: False
      from "1.IH"(2)[OF True refl q _ al] st q
      show ?thesis using True by (subst scanLoop.simps) (auto simp: red_def Let_def)
    qed
  qed
qed

lemma scanInv_init: "scanInv data thr 0 (0, -1)"
  by (simp add: scanInv_def)

lemma scanFrame_inv:
  "\<exists>n\<ge>length data. \<exists>maxVal. scanInv data thr n (maxVal, scanFrame data thr)"
proof -
  obtain n where n: "n \<ge> length data"
      "scanInv data thr n (scanLoop data thr 0 (0, -1))"
    using scanLoop_inv[OF scanInv_init, of data thr] by auto
  then show ?thesis
    unfolding scanFrame_def by (metis prod.collapse)
qed

lemma scanFrame_none:
  "(scanFrame data thr = -1) = (\<forall>j. sampled data j \<longrightarrow> \<not> qualifies data thr j)"
proof -
  obtain n maxVal where n: "n \<ge> length data"
    and inv: "scanInv data thr n (maxVal, scanFrame data thr)"
    using scanFrame_inv by blast
  show ?thesis
  proof
    assume "scanFrame data thr = -1"
    with inv have "\<forall>j<n. sampled data j \<longrightarrow> \<not> qualifies data thr j"
      by (auto simp: scanInv_def)
    with n show "\<forall>j. sampled data j \<longrightarrow> \<not> qualifies data thr j"
      unfolding sampled_def by auto
  next
    assume a: "\<forall>j. sampled data j \<longrightarrow> \<not> qualifies data thr j"
    show "scanFrame data thr = -1"
    proof (rule ccontr)
      assume "scanFrame data thr \<noteq> -1"
      with inv have "sampled data (nat (scanFrame data thr))"
        "qualifies data thr (nat (scanFrame data thr))"
        by (auto simp: scanInv_def)
      with a show False by blast
    qed
  qed
qed

lemma scanFrame_some:
  assumes "scanFrame data thr \<noteq> -1"
  shows "0 \<le> scanFrame data thr"
    and "sampled data (nat (scanFrame data thr))"
    and "qualifies data thr (nat (scanFrame data thr))"
    and "\<forall>j. sampled data j \<and> qualifies data thr j \<longrightarrow>
           red data j \<le> red data (nat (scanFrame data thr))
           \<and> (red data j = red data (nat (scanFrame data thr)) \<longrightarrow> nat (scanFrame data thr) \<le> j)"
proof -
  obtain n maxVal where n: "n \<ge> length data"
    and inv: "scanInv data thr n (maxVal, scanFrame data thr)"
    using scanFrame_inv by blast
  from inv assms show "0 \<le> scanFrame data thr" "sampled data (nat (scanFrame data thr))"
    "qualifies data thr (nat (scanFrame data thr))"
    by (auto simp: scanInv_def)
  from inv assms have mv: "red data (nat (scanFrame data thr)) = maxVal"
    and b: "\<forall>j<n. sampled data j \<and> qualifies data thr j \<longrightarrow>
           red data j \<le> maxVal \<and> (red data j = maxVal \<longrightarrow> nat (scanFrame data thr) \<le> j)"
    by (auto simp: scanInv_def)
  show "\<forall>j. sampled data j \<and> qualifies data thr j \<longrightarrow>
           red data j \<le> red data (nat (scanFrame data thr))
           \<and> (red data j = red data (nat (scanFrame data thr)) \<longrightarrow> nat (scanFrame data thr) \<le> j)"
  proof (intro allI impI)
    fix j assume j: "sampled data j \<and> qualifies data thr j"
    then have "j < n" using n by (simp add: sampled_def)
    with b j mv show "red data j \<le> red data (nat (scanFrame data thr))
           \<and> (red data j = red data (nat (scanFrame data thr)) \<longrightarrow> nat (scanFrame data thr) \<le> j)"
      by simp
  qed
qed

lemma qualifies_iff:
  "qualifies data thr i =
     (i + 2 < length data \<and> int (red data i) > thr
      \<and> real (red data i) > real (red data (i + 1)) * 1.5
      \<and> real (red data i) > real (red data (i + 2)) * 1.5)"
  unfolding qualifies_def sample_def red_def by auto

text \<open>
  C9: the detector returns the brightest qualifying pixel of the frame or none. A byte
  offset qualifies exactly when its red value exceeds the threshold and 1.5 times the green
  and the blue value; the scan returns \<open>-1\<close> exactly when no visited offset qualifies, and
  otherwise a visited qualifying offset whose red value is maximal among the visited
  qualifying ones; \<open>detectLaser\<close> turns that offset into the pixel's column and row.
\<close>

theorem detector_returns_brightest_sampled:
  "(qualifies data thr i =
     (i + 2 < length data \<and> int (red data i) > thr
      \<and> real (red data i) > real (red data (i + 1)) * 1.5
      \<and> real (red data i) > real (red data (i + 2)) * 1.5))
   \<and> ((scanFrame data thr = -1) = (\<forall>j. sampled data j \<longrightarrow> \<not> qualifies data thr j))
   \<and> (scanFrame data thr \<noteq> -1 \<longrightarrow>
        0 \<le> scanFrame data thr
        \<and> sampled data (nat (scanFrame data thr))
        \<and> qualifies data thr (nat (scanFrame data thr))
        \<and> (\<forall>j. sampled data j \<and> qualifies data thr j \<longrightarrow>
               red data j \<le> red data (nat (scanFrame data thr))))
   \<and> detectLaser data thr w =
        (if scanFrame data thr = -1 then None
         else Some ((nat (scanFrame data thr) div 4) mod w, (nat (scanFrame data thr) div 4) div w))"
proof (intro conjI)
  show "qualifies data thr i =
     (i + 2 < length data \<and> int (red data i) > thr
      \<and> real (red data i) > real (red data (i + 1)) * 1.5
      \<and> real (red data i) > real (red data (i + 2)) * 1.5)"
    by (rule qualifies_iff)
  show "(scanFrame data thr = -1) = (\<forall>j. sampled data j \<longrightarrow> \<not> qualifies data thr j)"
    by (rule scanFrame_none)
  show "scanFrame data thr \<noteq> -1 \<longrightarrow>
        0 \<le> scanFrame data thr
        \<and> sampled data (nat (scanFrame data thr))
        \<and> qualifies data thr (nat (scanFrame data thr))
        \<and> (\<forall>j. sampled data j \<and> qualifies data thr j \<longrightarrow>
               red data j \<le> red data (nat (scanFrame data thr)))"
    using scanFrame_some[of data thr] by blast
  show "detectLaser data thr w =
        (if scanFrame data thr = -1 then None
         else Some ((nat (scanFrame data thr) div 4) mod w, (nat (scanFrame data thr) div 4) div w))"
    by (simp add: detectLaser_def Let_def)
qed

lemma exampleFrame_scan: "scanFrame exampleFrame 200 = 8"
  by (simp add: scanFrame_def exampleFrame_def scanLoop.simps qualifies_def sample_def)

theorem detector_returns_brightest_sampled_witness:
  "scanFrame exampleFrame 200 \<noteq> -1
   \<and> sampled exampleFrame 0 \<and> sampled exampleFrame 8 \<and> qualifies exampleFrame 200 8
   \<and> red exampleFrame 8 \<le> red exampleFrame (nat (scanFrame exampleFrame 200))
   \<and> detectLaser exampleFrame 200 2 = Some (0, 1)"
proof -
  have s: "scanFrame exampleFrame 200 = 8" by (rule exampleFrame_scan)
  have q: "sampled exampleFrame 8 \<and> qualifies exampleFrame 200 8"
    by (simp add: sampled_def qualifies_def sample_def exampleFrame_def)
  have z: "sampled exampleFrame 0" by (simp add: sampled_def exampleFrame_def)
  from detector_returns_brightest_sampled[of exampleFrame 200 8 2] s q z
  show ?thesis by simp
qed

text \<open>
  C10: the scan visits only the pixels of even row-major index (byte offsets that are
  multiples of 8), so the offset it returns belongs to an even pixel, and a frame whose
  qualifying pixels all have odd index yields nothing; among the visited qualifying offsets
  of maximal red value the earliest one is returned. Being a function of the buffer and the
  threshold, the result is deterministic.
\<close>

theorem scan_skips_odd_pixels_earliest_wins:
  "(scanFrame data thr \<noteq> -1 \<longrightarrow>
        nat (scanFrame data thr) mod 8 = 0
        \<and> even (nat (scanFrame data thr) div 4)
        \<and> (\<forall>j. sampled data j \<and> qualifies data thr j
                \<and> red data j = red data (nat (scanFrame data thr))
              \<longrightarrow> nat (scanFrame data thr) \<le> j))
   \<and> ((\<forall>p. qualifies data thr (4 * p) \<longrightarrow> odd p) \<longrightarrow> scanFrame data thr = -1)
   \<and> (sampled data j = (j < length data \<and> j mod 4 = 0 \<and> even (j div 4)))"
proof (intro conjI impI)
  assume a: "scanFrame data thr \<noteq> -1"
  from scanFrame_some(2)[OF a] show m: "nat (scanFrame data thr) mod 8 = 0"
    by (simp add: sampled_def)
  have "\<And>k::nat. k mod 8 = 0 \<Longrightarrow> even (k div 4)" by presburger
  from this[OF m] show "even (nat (scanFrame data thr) div 4)" .
  from scanFrame_some(4)[OF a]
  show "\<forall>j. sampled data j \<and> qualifies data thr j
                \<and> red data j = red data (nat (scanFrame data thr))
              \<longrightarrow> nat (scanFrame data thr) \<le> j" by blast
next
  assume o: "\<forall>p. qualifies data thr (4 * p) \<longrightarrow> odd p"
  have "\<forall>j. sampled data j \<longrightarrow> \<not> qualifies data thr j"
  proof (intro allI impI)
    fix j assume "sampled data j"
    then have "even (j div 4) \<and> j = 4 * (j div 4)" unfolding sampled_def by presburger
    with o show "\<not> qualifies data thr j" by metis
  qed
  then show "scanFrame data thr = -1" by (simp add: scanFrame_none)
next
  show "sampled data j = (j < length data \<and> j mod 4 = 0 \<and> even (j div 4))"
    unfolding sampled_def by presburger
qed

theorem scan_skips_odd_pixels_earliest_wins_witness:
  "scanFrame tieFrame 200 \<noteq> -1 \<and> scanFrame tieFrame 200 = 8
   \<and> qualifies tieFrame 200 4
   \<and> sampled tieFrame 16 \<and> qualifies tieFrame 200 16 \<and> red tieFrame 16 = red tieFrame 8
   \<and> nat (scanFrame tieFrame 200) \<le> 16
   \<and> scanFrame [0, 0, 0, 255, 255, 0, 0, 255] 200 = -1"
proof -
  have s: "scanFrame tieFrame 200 = 8"
    by (simp add: scanFrame_def tieFrame_def scanLoop.simps qualifies_def sample_def)
  have q: "qualifies tieFrame 200 4 \<and> sampled tieFrame 16 \<and> qualifies tieFrame 200 16
      \<and> red tieFrame 16 = red tieFrame 8"
    by (simp add: sampled_def qualifies_def sample_def tieFrame_def red_def)
  have o: "\<forall>p. qualifies [0, 0, 0, 255, 255, 0, 0, 255] 200 (4 * p) \<longrightarrow> odd p"
  proof (intro allI impI)
    fix p :: nat assume "qualifies [0, 0, 0, 255, 255, 0, 0, 255] 200 (4 * p)"
    then have "4 * p + 2 < 8" "int (red [0, 0, 0, 255, 255, 0, 0, 255] (4 * p)) > 200"
      by (simp_all add: qualifies_iff)
    then have "p = 1"
      by (cases "p = 0") (auto simp: red_def)
    then show "odd p" by simp
  qed
  from scan_skips_odd_pixels_earliest_wins[of tieFrame 200 16] s q
    scan_skips_odd_pixels_earliest_wins[of "[0, 0, 0, 255, 255, 0, 0, 255]" 200 0] o
  show ?thesis by simp
qed

subsection \<open>Scoring\<close>

lemma shotScore_formula:
  "shotScore tx ty = max 0 (min 10 (10 - floor (10 * centerDist tx ty / 250)))"
  by (simp add: shotScore_def Let_def)

lemma centerDist_nonneg: "0 \<le> centerDist tx ty"
  by (simp add: centerDist_def Let_def)

lemma shotScore_mono:
  assumes "centerDist tx ty \<le> centerDist ux uy"
  shows "shotScore ux uy \<le> shotScore tx ty"
proof -
  have "10 * centerDist tx ty / 250 \<le> 10 * centerDist ux uy / 250"
    using assms by simp
  then have "floor (10 * centerDist tx ty / 250) \<le> floor (10 * centerDist ux uy / 250)"
    by (rule floor_mono)
  then show ?thesis unfolding shotScore_formula by linarith
qed

lemma shotScore_center:
  assumes "centerDist tx ty = 0"
  shows "shotScore tx ty = 10"
  using assms by (simp add: shotScore_formula)

lemma shotScore_outside:
  assumes "centerDist tx ty \<ge> 250"
  shows "shotScore tx ty = 0"
proof -
  have "10 * centerDist tx ty / 250 \<ge> 10" using assms by simp
  then have "floor (10 * centerDist tx ty / 250) \<ge> 10" by (simp add: le_floor_iff)
  then show ?thesis unfolding shotScore_formula by linarith
qed

lemma shotScore_range: "0 \<le> shotScore tx ty \<and> shotScore tx ty \<le> 10"
  unfolding shotScore_formula by linarith

text \<open>
  C5: with centre (250, 350), maximal radius 250 and \<open>d\<close> the Euclidean distance of the
  point from the centre, the score is \<open>10 - floor (10 * d / 250)\<close> clamped to the range
  from 0 to 10; it is 10 at distance 0, it is 0 from distance 250 on, and a point that is
  no nearer than another scores no more than it.
\<close>

theorem score_by_distance:
  "centerDist tx ty = sqrt ((tx - 250)\<^sup>2 + (ty - 350)\<^sup>2)
   \<and> shotScore tx ty = max 0 (min 10 (10 - floor (10 * centerDist tx ty / 250)))
   \<and> (centerDist tx ty = 0 \<longrightarrow> shotScore tx ty = 10)
   \<and> (centerDist tx ty \<ge> 250 \<longrightarrow> shotScore tx ty = 0)
   \<and> (centerDist tx ty \<le> centerDist ux uy \<longrightarrow> shotScore ux uy \<le> shotScore tx ty)"
  using shotScore_formula shotScore_center shotScore_outside shotScore_mono
  by (simp add: centerDist_def Let_def)

lemma centerDist_250_350: "centerDist 250 350 = 0"
  by (simp add: centerDist_def Let_def)

lemma centerDist_250_600: "centerDist 250 600 = 250"
proof -
  have "sqrt ((250::real)\<^sup>2) = 250" by (rule real_sqrt_unique) simp_all
  then show ?thesis by (simp add: centerDist_def Let_def)
qed

theorem score_by_distance_witness:
  "centerDist 250 350 = 0 \<and> shotScore 250 350 = 10
   \<and> centerDist 250 600 \<ge> 250 \<and> shotScore 250 600 = 0
   \<and> centerDist 250 350 \<le> centerDist 250 600 \<and> shotScore 250 600 \<le> shotScore 250 350"
  using score_by_distance[of 250 350 250 600] score_by_distance[of 250 600 250 600]
    centerDist_250_350 centerDist_250_600
  by simp

subsection \<open>Corner ordering\<close>

lemma foldl_min_least:
  fixes k :: "'a \<Rightarrow> real"
  shows "q \<in> insert a (set xs) \<Longrightarrow>
    k (foldl (\<lambda>prev curr. if k curr < k prev then curr else prev) a xs) \<le> k q"
proof (induction xs arbitrary: a q)
  case Nil then show ?case by simp
next
  case (Cons x xs)
  let ?a' = "if k x < k a then x else a"
  have le: "k ?a' \<le> k a" "k ?a' \<le> k x" by auto
  from Cons.prems consider "q = a" | "q = x" | "q \<in> set xs" by auto
  then show ?case
  proof cases
    case 1
    have "k (foldl (\<lambda>prev curr. if k curr < k prev then curr else prev) ?a' xs) \<le> k ?a'"
      using Cons.IH[of "?a'" "?a'"] by simp
    with le 1 show ?thesis by simp
  next
    case 2
    have "k (foldl (\<lambda>prev curr. if k curr < k prev then curr else prev) ?a' xs) \<le> k ?a'"
      using Cons.IH[of "?a'" "?a'"] by simp
    with le 2 show ?thesis by simp
  next
    case 3
    have "k (foldl (\<lambda>prev curr. if k curr < k prev then curr else prev) ?a' xs) \<le> k q"
      using Cons.IH[of q "?a'"] 3 by simp
    then show ?thesis by simp
  qed
qed

lemma foldl_max_greatest:
  fixes k :: "'a \<Rightarrow> real"
  shows "q \<in> insert a (set xs) \<Longrightarrow>
    k q \<le> k (foldl (\<lambda>prev curr. if k curr > k prev then curr else prev) a xs)"
proof (induction xs arbitrary: a q)
  case Nil then show ?case by simp
next
  case (Cons x xs)
  let ?a' = "if k x > k a then x else a"
  have le: "k a \<le> k ?a'" "k x \<le> k ?a'" by auto
  from Cons.prems consider "q = a" | "q = x" | "q \<in> set xs" by auto
  then show ?case
  proof cases
    case 1
    have "k ?a' \<le> k (foldl (\<lambda>prev curr. if k curr > k prev then curr else prev) ?a' xs)"
      using Cons.IH[of "?a'" "?a'"] by simp
    with le 1 show ?thesis by simp
  next
    case 2
    have "k ?a' \<le> k (foldl (\<lambda>prev curr. if k curr > k prev then curr else prev) ?a' xs)"
      using Cons.IH[of "?a'" "?a'"] by simp
    with le 2 show ?thesis by simp
  next
    case 3
    have "k q \<le> k (foldl (\<lambda>prev curr. if k curr > k prev then curr else prev) ?a' xs)"
      using Cons.IH[of q "?a'"] 3 by simp
    then show ?thesis by simp
  qed
qed

lemma foldl_min_mem:
  fixes k :: "'a \<Rightarrow> real"
  shows "foldl (\<lambda>prev curr. if k curr < k prev then curr else prev) a xs \<in> insert a (set xs)"
  by (induction xs arbitrary: a) auto

lemma foldl_max_mem:
  fixes k :: "'a \<Rightarrow> real"
  shows "foldl (\<lambda>prev curr. if k curr > k prev then curr else prev) a xs \<in> insert a (set xs)"
  by (induction xs arbitrary: a) auto

lemma foldl_min_unique:
  fixes k :: "'a \<Rightarrow> real"
  assumes a: "a \<in> set zs" and b: "b \<in> set zs'" and eq: "set zs' = set zs"
    and uniq: "\<And>c d. c \<in> set zs \<Longrightarrow> d \<in> set zs \<Longrightarrow>
                 \<forall>r\<in>set zs. k c \<le> k r \<Longrightarrow> \<forall>r\<in>set zs. k d \<le> k r \<Longrightarrow> c = d"
  shows "foldl (\<lambda>prev curr. if k curr < k prev then curr else prev) b zs'
       = foldl (\<lambda>prev curr. if k curr < k prev then curr else prev) a zs"
proof -
  let ?f = "\<lambda>prev curr. if k curr < k prev then curr else prev"
  have ia: "insert a (set zs) = set zs" using a by (rule insert_absorb)
  have ib: "insert b (set zs') = set zs" using b eq by (simp add: insert_absorb)
  have m1: "foldl ?f a zs \<in> set zs"
    using foldl_min_mem[of k a zs] unfolding ia .
  have m2: "foldl ?f b zs' \<in> set zs"
    using foldl_min_mem[of k b zs'] unfolding ib .
  have l1: "\<forall>r\<in>set zs. k (foldl ?f a zs) \<le> k r"
  proof
    fix r assume "r \<in> set zs"
    then have "r \<in> insert a (set zs)" unfolding ia .
    then show "k (foldl ?f a zs) \<le> k r" by (rule foldl_min_least)
  qed
  have l2: "\<forall>r\<in>set zs. k (foldl ?f b zs') \<le> k r"
  proof
    fix r assume "r \<in> set zs"
    then have "r \<in> insert b (set zs')" unfolding ib .
    then show "k (foldl ?f b zs') \<le> k r" by (rule foldl_min_least)
  qed
  show ?thesis by (rule uniq[OF m2 m1 l2 l1])
qed

lemma foldl_max_unique:
  fixes k :: "'a \<Rightarrow> real"
  assumes a: "a \<in> set zs" and b: "b \<in> set zs'" and eq: "set zs' = set zs"
    and uniq: "\<And>c d. c \<in> set zs \<Longrightarrow> d \<in> set zs \<Longrightarrow>
                 \<forall>r\<in>set zs. k r \<le> k c \<Longrightarrow> \<forall>r\<in>set zs. k r \<le> k d \<Longrightarrow> c = d"
  shows "foldl (\<lambda>prev curr. if k curr > k prev then curr else prev) b zs'
       = foldl (\<lambda>prev curr. if k curr > k prev then curr else prev) a zs"
proof -
  let ?f = "\<lambda>prev curr. if k curr > k prev then curr else prev"
  have ia: "insert a (set zs) = set zs" using a by (rule insert_absorb)
  have ib: "insert b (set zs') = set zs" using b eq by (simp add: insert_absorb)
  have m1: "foldl ?f a zs \<in> set zs"
    using foldl_max_mem[of k a zs] unfolding ia .
  have m2: "foldl ?f b zs' \<in> set zs"
    using foldl_max_mem[of k b zs'] unfolding ib .
  have l1: "\<forall>r\<in>set zs. k r \<le> k (foldl ?f a zs)"
  proof
    fix r assume "r \<in> set zs"
    then have "r \<in> insert a (set zs)" unfolding ia .
    then show "k r \<le> k (foldl ?f a zs)" by (rule foldl_max_greatest)
  qed
  have l2: "\<forall>r\<in>set zs. k r \<le> k (foldl ?f b zs')"
  proof
    fix r assume "r \<in> set zs"
    then have "r \<in> insert b (set zs')" unfolding ib .
    then show "k r \<le> k (foldl ?f b zs')" by (rule foldl_max_greatest)
  qed
  show ?thesis by (rule uniq[OF m2 m1 l2 l1])
qed

lemma psum_withSumDiff: "psum (withSumDiff p) = coordSum p"
  by (simp add: withSumDiff_def coordSum_def)

lemma pdiff_withSumDiff: "pdiff (withSumDiff p) = coordDiff p"
  by (simp add: withSumDiff_def coordDiff_def)

lemma uniqueLeast_corners:
  assumes u: "uniqueLeast k xs" and kk: "\<And>p. kc (withSumDiff p) = k p"
    and c: "c \<in> set (map withSumDiff xs)" and d: "d \<in> set (map withSumDiff xs)"
    and lc: "\<forall>r\<in>set (map withSumDiff xs). kc c \<le> kc r"
    and ld: "\<forall>r\<in>set (map withSumDiff xs). kc d \<le> kc r"
  shows "c = d"
proof -
  from c obtain p where p: "p \<in> set xs" "c = withSumDiff p" by auto
  from d obtain q where q: "q \<in> set xs" "d = withSumDiff q" by auto
  have "\<forall>r\<in>set xs. k p \<le> k r" using lc p kk by auto
  moreover have "\<forall>r\<in>set xs. k q \<le> k r" using ld q kk by auto
  ultimately have "p = q" using u p q unfolding uniqueLeast_def by blast
  with p q show ?thesis by simp
qed

lemma uniqueGreatest_corners:
  assumes u: "uniqueGreatest k xs" and kk: "\<And>p. kc (withSumDiff p) = k p"
    and c: "c \<in> set (map withSumDiff xs)" and d: "d \<in> set (map withSumDiff xs)"
    and lc: "\<forall>r\<in>set (map withSumDiff xs). kc r \<le> kc c"
    and ld: "\<forall>r\<in>set (map withSumDiff xs). kc r \<le> kc d"
  shows "c = d"
proof -
  from c obtain p where p: "p \<in> set xs" "c = withSumDiff p" by auto
  from d obtain q where q: "q \<in> set xs" "d = withSumDiff q" by auto
  have "\<forall>r\<in>set xs. k r \<le> k p" using lc p kk by auto
  moreover have "\<forall>r\<in>set xs. k r \<le> k q" using ld q kk by auto
  ultimately have "p = q" using u p q unfolding uniqueGreatest_def by blast
  with p q show ?thesis by simp
qed

text \<open>
  C6 (as amended): when the least and the greatest value of \<open>x + y\<close> and of \<open>y - x\<close>
  are each attained by one point only, every permutation of the points gets the same
  corner assignment.
\<close>

theorem corner_order_permutation_invariant:
  assumes perm: "mset ys = mset xs" and u: "extremesUnique xs"
  shows "orderCorners ys = orderCorners xs"
proof (cases xs)
  case Nil
  with perm show ?thesis by simp
next
  case (Cons x0 xs')
  from perm Cons obtain y0 ys' where ys: "ys = y0 # ys'" by (cases ys) auto
  have seteq: "set ys = set xs" using perm by (rule mset_eq_setD)
  let ?zs = "map withSumDiff xs" and ?zs' = "map withSumDiff ys"
  have s: "set ?zs' = set ?zs" using seteq by simp
  have a: "withSumDiff x0 \<in> set ?zs" using Cons by simp
  have b: "withSumDiff y0 \<in> set ?zs'" using ys by simp
  have u1: "\<And>c d. c \<in> set ?zs \<Longrightarrow> d \<in> set ?zs \<Longrightarrow>
       \<forall>r\<in>set ?zs. psum c \<le> psum r \<Longrightarrow> \<forall>r\<in>set ?zs. psum d \<le> psum r \<Longrightarrow> c = d"
    using uniqueLeast_corners[of coordSum xs psum, OF _ psum_withSumDiff] u
    unfolding extremesUnique_def by blast
  have u2: "\<And>c d. c \<in> set ?zs \<Longrightarrow> d \<in> set ?zs \<Longrightarrow>
       \<forall>r\<in>set ?zs. psum r \<le> psum c \<Longrightarrow> \<forall>r\<in>set ?zs. psum r \<le> psum d \<Longrightarrow> c = d"
    using uniqueGreatest_corners[of coordSum xs psum, OF _ psum_withSumDiff] u
    unfolding extremesUnique_def by blast
  have u3: "\<And>c d. c \<in> set ?zs \<Longrightarrow> d \<in> set ?zs \<Longrightarrow>
       \<forall>r\<in>set ?zs. pdiff c \<le> pdiff r \<Longrightarrow> \<forall>r\<in>set ?zs. pdiff d \<le> pdiff r \<Longrightarrow> c = d"
    using uniqueLeast_corners[of coordDiff xs pdiff, OF _ pdiff_withSumDiff] u
    unfolding extremesUnique_def by blast
  have u4: "\<And>c d. c \<in> set ?zs \<Longrightarrow> d \<in> set ?zs \<Longrightarrow>
       \<forall>r\<in>set ?zs. pdiff r \<le> pdiff c \<Longrightarrow> \<forall>r\<in>set ?zs. pdiff r \<le> pdiff d \<Longrightarrow> c = d"
    using uniqueGreatest_corners[of coordDiff xs pdiff, OF _ pdiff_withSumDiff] u
    unfolding extremesUnique_def by blast
  note e1 = foldl_min_unique[of "withSumDiff x0" ?zs "withSumDiff y0" ?zs' psum, OF a b s u1]
  note e2 = foldl_max_unique[of "withSumDiff x0" ?zs "withSumDiff y0" ?zs' psum, OF a b s u2]
  note e3 = foldl_min_unique[of "withSumDiff x0" ?zs "withSumDiff y0" ?zs' pdiff, OF a b s u3]
  note e4 = foldl_max_unique[of "withSumDiff x0" ?zs "withSumDiff y0" ?zs' pdiff, OF a b s u4]
  have oy: "orderCorners ys = Some
     (foldl (\<lambda>prev curr. if psum curr < psum prev then curr else prev) (withSumDiff y0) ?zs',
      foldl (\<lambda>prev curr. if pdiff curr < pdiff prev then curr else prev) (withSumDiff y0) ?zs',
      foldl (\<lambda>prev curr. if psum curr > psum prev then curr else prev) (withSumDiff y0) ?zs',
      foldl (\<lambda>prev curr. if pdiff curr > pdiff prev then curr else prev) (withSumDiff y0) ?zs')"
    unfolding ys by (simp only: orderCorners_def Let_def list.map list.case)
  have ox: "orderCorners xs = Some
     (foldl (\<lambda>prev curr. if psum curr < psum prev then curr else prev) (withSumDiff x0) ?zs,
      foldl (\<lambda>prev curr. if pdiff curr < pdiff prev then curr else prev) (withSumDiff x0) ?zs,
      foldl (\<lambda>prev curr. if psum curr > psum prev then curr else prev) (withSumDiff x0) ?zs,
      foldl (\<lambda>prev curr. if pdiff curr > pdiff prev then curr else prev) (withSumDiff x0) ?zs)"
    unfolding Cons by (simp only: orderCorners_def Let_def list.map list.case)
  have quad: "\<And>a1 b1 c1 d1 a2 b2 c2 d2 :: Corner.
      a1 = a2 \<Longrightarrow> b1 = b2 \<Longrightarrow> c1 = c2 \<Longrightarrow> d1 = d2 \<Longrightarrow>
      Some (a1, b1, c1, d1) = Some (a2, b2, c2, d2)"
    by simp
  have "Some
     (foldl (\<lambda>prev curr. if psum curr < psum prev then curr else prev) (withSumDiff y0) ?zs',
      foldl (\<lambda>prev curr. if pdiff curr < pdiff prev then curr else prev) (withSumDiff y0) ?zs',
      foldl (\<lambda>prev curr. if psum curr > psum prev then curr else prev) (withSumDiff y0) ?zs',
      foldl (\<lambda>prev curr. if pdiff curr > pdiff prev then curr else prev) (withSumDiff y0) ?zs')
    = Some
     (foldl (\<lambda>prev curr. if psum curr < psum prev then curr else prev) (withSumDiff x0) ?zs,
      foldl (\<lambda>prev curr. if pdiff curr < pdiff prev then curr else prev) (withSumDiff x0) ?zs,
      foldl (\<lambda>prev curr. if psum curr > psum prev then curr else prev) (withSumDiff x0) ?zs,
      foldl (\<lambda>prev curr. if pdiff curr > pdiff prev then curr else prev) (withSumDiff x0) ?zs)"
    by (rule quad[OF e1 e3 e2 e4])
  then show ?thesis by (rule trans[OF oy trans[OF _ ox[symmetric]]])

qed

lemma rectQuad_unique: "extremesUnique rectQuad"
  unfolding extremesUnique_def uniqueLeast_def uniqueGreatest_def
  by (simp add: rectQuad_def mkPoint_def coordSum_def coordDiff_def)

theorem corner_order_permutation_invariant_witness:
  "mset rectQuadShuffled = mset rectQuad \<and> extremesUnique rectQuad
   \<and> orderCorners rectQuadShuffled = orderCorners rectQuad
   \<and> orderCorners rectQuad =
       Some (withSumDiff (mkPoint 0 0), withSumDiff (mkPoint 4 0),
             withSumDiff (mkPoint 4 2), withSumDiff (mkPoint 0 2))"
proof -
  have p: "mset rectQuadShuffled = mset rectQuad"
    by (simp add: rectQuadShuffled_def rectQuad_def)
  have v: "orderCorners rectQuad =
       Some (withSumDiff (mkPoint 0 0), withSumDiff (mkPoint 4 0),
             withSumDiff (mkPoint 4 2), withSumDiff (mkPoint 0 2))"
    by (simp add: orderCorners_def rectQuad_def mkPoint_def withSumDiff_def Let_def)
  from corner_order_permutation_invariant[OF p rectQuad_unique] p rectQuad_unique v
  show ?thesis by simp
qed

text \<open>
  C6 as stated fails on a convex quadrilateral with ties: for the square standing on a
  corner, two points share the least \<open>x + y\<close>, and swapping them in the input changes
  which one becomes the top-left corner.
\<close>

theorem corner_order_diamond_counterexample:
  "convexQuad diamondA diamondB diamondC diamondD
   \<and> mset [diamondB, diamondA, diamondC, diamondD] = mset [diamondA, diamondB, diamondC, diamondD]
   \<and> orderCorners [diamondA, diamondB, diamondC, diamondD] =
       Some (withSumDiff diamondA, withSumDiff diamondB, withSumDiff diamondC, withSumDiff diamondA)
   \<and> orderCorners [diamondB, diamondA, diamondC, diamondD] =
       Some (withSumDiff diamondB, withSumDiff diamondB, withSumDiff diamondC, withSumDiff diamondA)
   \<and> orderCorners [diamondB, diamondA, diamondC, diamondD]
       \<noteq> orderCorners [diamondA, diamondB, diamondC, diamondD]"
  by (simp add: convexQuad_def cross_def orderCorners_def diamondA_def diamondB_def diamondC_def
      diamondD_def mkPoint_def withSumDiff_def Let_def)

subsection \<open>The round state machine\<close>

lemma processFrame_disj:
  "processFrame cv st t f = st
   \<or> (mode st = SETUP \<and> setupType st = AUTO
        \<and> (\<exists>a b c d. processFrame cv st t f = st\<lparr>targetFound := True, targetQuad := [a, b, c, d]\<rparr>))
   \<or> (mode st = SETUP \<and> setupType st = AUTO
        \<and> processFrame cv st t f = st\<lparr>targetFound := False\<rparr>)
   \<or> (mode st = SHOOT \<and> transformMatrix st \<noteq> None \<and> cooldownRemaining st = 0
        \<and> \<not> t - lastShotTimestamp st < 500
        \<and> (\<exists>tx ty. processFrame cv st t f = handleShot st t tx ty))"
  unfolding processFrame_def
  by (simp split: option.splits prod.splits) blast

lemma processFrame_cases:
  obtains (idle) "processFrame cv st t f = st"
  | (found) a b c d where "mode st = SETUP" "setupType st = AUTO"
      "processFrame cv st t f = st\<lparr>targetFound := True, targetQuad := [a, b, c, d]\<rparr>"
  | (lost) "mode st = SETUP" "setupType st = AUTO"
      "processFrame cv st t f = st\<lparr>targetFound := False\<rparr>"
  | (shot) tx ty where "mode st = SHOOT" "transformMatrix st \<noteq> None"
      "cooldownRemaining st = 0" "\<not> t - lastShotTimestamp st < 500"
      "processFrame cv st t f = handleShot st t tx ty"
  using processFrame_disj[of cv st t f] by blast

lemma handleShot_accept:
  assumes "\<not> t - lastShotTimestamp st < 500"
  shows "handleShot st t tx ty =
     st\<lparr>lastShotTimestamp := t, cooldownRemaining := 3,
        currentRoundShots := currentRoundShots st @
          [\<lparr>shotId = t, shotX = tx, shotY = ty, score = shotScore tx ty,
            timestamp = t, roundId = length (history st) + 1\<rparr>],
        roundTimers := (if length (currentRoundShots st) \<ge> 4
            then roundTimers st @ [(t + 1500, currentRoundShots st @
          [\<lparr>shotId = t, shotX = tx, shotY = ty, score = shotScore tx ty,
            timestamp = t, roundId = length (history st) + 1\<rparr>])]
            else roundTimers st)\<rparr>"
  using assms by (simp add: handleShot_def Let_def)

lemma handleShot_reject:
  assumes "t - lastShotTimestamp st < 500"
  shows "handleShot st t tx ty = st"
  using assms by (simp add: handleShot_def)

lemma run_append:
  "run cv st (xs @ ys) = (case run cv st xs of None \<Rightarrow> None | Some st' \<Rightarrow> run cv st' ys)"
  by (induction xs arbitrary: st) (auto split: option.splits)

lemma run_invariant:
  assumes step: "\<And>st ev st'. P st \<Longrightarrow> step cv st ev = Some st' \<Longrightarrow> P st'"
    and init: "P st0" and r: "run cv st0 evs = Some st"
  shows "P st"
  using init r
proof (induction evs arbitrary: st0)
  case Nil then show ?case by simp
next
  case (Cons ev evs)
  from Cons.prems(2) obtain st1 where s1: "step cv st0 ev = Some st1" "run cv st1 evs = Some st"
    by (auto split: option.splits)
  from step[OF Cons.prems(1) s1(1)] have "P st1" .
  from Cons.IH[OF this s1(2)] show ?case .
qed

lemma step_elims:
  assumes "step cv st (t, e) = Some st'"
  shows "enabled st t e"
    and "st' = (cooldownEffect (cooldownRemaining st) t (handle cv st t e))\<lparr>clock := t\<rparr>"
  using assms by (auto simp: step_def split: if_splits)

text \<open>The cooldown effect touches no field but \<open>cooldownTimer\<close>.\<close>

lemma cooldownEffect_fields [simp]:
  "mode (cooldownEffect p t st) = mode st"
  "setupType (cooldownEffect p t st) = setupType st"
  "currentRoundShots (cooldownEffect p t st) = currentRoundShots st"
  "history (cooldownEffect p t st) = history st"
  "settings (cooldownEffect p t st) = settings st"
  "cooldownRemaining (cooldownEffect p t st) = cooldownRemaining st"
  "targetFound (cooldownEffect p t st) = targetFound st"
  "targetQuad (cooldownEffect p t st) = targetQuad st"
  "manualPoints (cooldownEffect p t st) = manualPoints st"
  "transformMatrix (cooldownEffect p t st) = transformMatrix st"
  "lastShotTimestamp (cooldownEffect p t st) = lastShotTimestamp st"
  "roundTimers (cooldownEffect p t st) = roundTimers st"
  "clock (cooldownEffect p t st) = clock st"
  by (simp_all add: cooldownEffect_def)

lemma step_frame:
  assumes "step cv st (t, AnimationFrame f) = Some st'"
  shows "clock st \<le> t \<and>
    (st' = st\<lparr>clock := t\<rparr>
     \<or> (mode st = SETUP \<and> (\<exists>a b c d. st' = st\<lparr>targetFound := True, targetQuad := [a, b, c, d], clock := t\<rparr>))
     \<or> (mode st = SETUP \<and> st' = st\<lparr>targetFound := False, clock := t\<rparr>)
     \<or> (mode st = SHOOT \<and> transformMatrix st \<noteq> None \<and> cooldownRemaining st = 0
          \<and> \<not> t - lastShotTimestamp st < 500
          \<and> (\<exists>tx ty. st' = st\<lparr>lastShotTimestamp := t, cooldownRemaining := 3,
                currentRoundShots := currentRoundShots st @ [acceptedShot st t tx ty],
                roundTimers := (if length (currentRoundShots st) \<ge> 4
                   then roundTimers st @ [(t + 1500, currentRoundShots st @ [acceptedShot st t tx ty])]
                   else roundTimers st),
                cooldownTimer := Some (t + 1000), clock := t\<rparr>)))"
proof -
  note s = step_elims[OF assms]
  from s(1) have c: "clock st \<le> t" by simp
  show ?thesis
  proof (cases rule: processFrame_cases[of cv st t f])
    case idle
    with s c show ?thesis by (simp add: cooldownEffect_def)
  next
    case (found a b c d)
    with s \<open>clock st \<le> t\<close> show ?thesis by (auto simp: cooldownEffect_def)
  next
    case lost
    with s c show ?thesis by (simp add: cooldownEffect_def)
  next
    case (shot tx ty)
    have "st' = st\<lparr>lastShotTimestamp := t, cooldownRemaining := 3,
                currentRoundShots := currentRoundShots st @ [acceptedShot st t tx ty],
                roundTimers := (if length (currentRoundShots st) \<ge> 4
                   then roundTimers st @ [(t + 1500, currentRoundShots st @ [acceptedShot st t tx ty])]
                   else roundTimers st),
                cooldownTimer := Some (t + 1000), clock := t\<rparr>"
      using s(2) shot by (simp add: handleShot_accept cooldownEffect_def acceptedShot_def)
    with shot c show ?thesis by blast
  qed
qed

lemma lockTarget_disj:
  "lockTarget cv st = st
   \<or> (\<exists>m. lockTarget cv st = st\<lparr>transformMatrix := Some m, mode := SHOOT, currentRoundShots := []\<rparr>)"
proof (cases "setupType st = AUTO \<and> (\<not> targetFound st \<or> length (targetQuad st) \<noteq> 4)")
  case True
  then show ?thesis by (simp add: lockTarget_def)
next
  case False
  show ?thesis
  proof (cases "orderCorners (if setupType st = AUTO then targetQuad st else manualPoints st)")
    case None
    with False show ?thesis by (cases "setupType st = AUTO") (simp_all add: lockTarget_def Let_def)
  next
    case (Some q)
    obtain a b c d where q: "q = (a, b, c, d)" by (cases q) auto
    have "lockTarget cv st = st\<lparr>transformMatrix :=
        Some (getPerspectiveTransform cv [px a, py a, px b, py b, px c, py c, px d, py d]
               [0, 0, 500, 0, 500, 700, 0, 700]),
        mode := SHOOT, currentRoundShots := []\<rparr>"
      using False Some q by (cases "setupType st = AUTO") (simp_all add: lockTarget_def Let_def)
    then show ?thesis by blast
  qed
qed

lemma step_lock:
  assumes "step cv st (t, LockTarget) = Some st'"
  shows "clock st \<le> t \<and> mode st = SETUP \<and>
    (st' = st\<lparr>clock := t\<rparr>
     \<or> (\<exists>m. st' = st\<lparr>transformMatrix := Some m, mode := SHOOT, currentRoundShots := [], clock := t\<rparr>))"
proof -
  note s = step_elims[OF assms]
  from s(1) have g: "clock st \<le> t \<and> mode st = SETUP" by simp
  from lockTarget_disj[of cv st] show ?thesis
  proof
    assume "lockTarget cv st = st"
    with s(2) have "st' = st\<lparr>clock := t\<rparr>" by (simp add: cooldownEffect_def)
    with g show ?thesis by simp
  next
    assume "\<exists>m. lockTarget cv st = st\<lparr>transformMatrix := Some m, mode := SHOOT, currentRoundShots := []\<rparr>"
    then obtain m where "lockTarget cv st = st\<lparr>transformMatrix := Some m, mode := SHOOT, currentRoundShots := []\<rparr>"
      by blast
    with s(2) have "st' = st\<lparr>transformMatrix := Some m, mode := SHOOT, currentRoundShots := [], clock := t\<rparr>"
      by (simp add: cooldownEffect_def)
    with g show ?thesis by blast
  qed
qed

lemma step_newRound:
  assumes "step cv st (t, StartNewRound) = Some st'"
  shows "clock st \<le> t \<and> mode st = ROUND_OVER \<and>
    st' = st\<lparr>mode := SHOOT, cooldownRemaining := 0, currentRoundShots := [],
            cooldownTimer := (if cooldownRemaining st = 0 then cooldownTimer st else None),
            clock := t\<rparr>"
proof -
  note s = step_elims[OF assms]
  from s(1) have g: "clock st \<le> t \<and> mode st = ROUND_OVER" by simp
  from s(2) have "st' = st\<lparr>mode := SHOOT, cooldownRemaining := 0, currentRoundShots := [],
            cooldownTimer := (if cooldownRemaining st = 0 then cooldownTimer st else None),
            clock := t\<rparr>"
    by (simp add: startNewRound_def cooldownEffect_def)
  with g show ?thesis by simp
qed

lemma step_reset:
  assumes "step cv st (t, ResetToSetup) = Some st'"
  shows "clock st \<le> t \<and> mode st \<noteq> SETUP \<and>
    st' = st\<lparr>mode := SETUP, targetFound := False, currentRoundShots := [], cooldownRemaining := 0,
            cooldownTimer := (if cooldownRemaining st = 0 then cooldownTimer st else None),
            clock := t\<rparr>"
proof -
  note s = step_elims[OF assms]
  from s(1) have g: "clock st \<le> t \<and> mode st \<noteq> SETUP" by simp
  from s(2) have "st' = st\<lparr>mode := SETUP, targetFound := False, currentRoundShots := [],
            cooldownRemaining := 0,
            cooldownTimer := (if cooldownRemaining st = 0 then cooldownTimer st else None),
            clock := t\<rparr>"
    by (simp add: resetToSetup_def cooldownEffect_def)
  with g show ?thesis by simp
qed

lemma step_toggle:
  assumes "step cv st (t, ToggleSetupType) = Some st'"
  shows "clock st \<le> t \<and> mode st = SETUP \<and>
    st' = st\<lparr>setupType := (if setupType st = AUTO then MANUAL else AUTO), clock := t\<rparr>"
proof -
  note s = step_elims[OF assms]
  from s(1) have g: "clock st \<le> t \<and> mode st = SETUP" by simp
  from s(2) have "st' = st\<lparr>setupType := (if setupType st = AUTO then MANUAL else AUTO), clock := t\<rparr>"
    by (simp add: cooldownEffect_def)
  with g show ?thesis by simp
qed

lemma step_move:
  assumes "step cv st (t, MovePoint i p) = Some st'"
  shows "clock st \<le> t \<and> i < length (manualPoints st) \<and>
    st' = st\<lparr>manualPoints := (manualPoints st)[i := p], clock := t\<rparr>"
proof -
  note s = step_elims[OF assms]
  from s(1) have g: "clock st \<le> t \<and> i < length (manualPoints st)" by simp
  from s(2) have "st' = st\<lparr>manualPoints := (manualPoints st)[i := p], clock := t\<rparr>"
    by (simp add: cooldownEffect_def)
  with g show ?thesis by simp
qed

lemma step_threshold:
  assumes "step cv st (t, SetThreshold v) = Some st'"
  shows "clock st \<le> t \<and> mode st = SETUP \<and>
    st' = st\<lparr>settings := (settings st)\<lparr>threshold := v\<rparr>, clock := t\<rparr>"
proof -
  note s = step_elims[OF assms]
  from s(1) have g: "clock st \<le> t \<and> mode st = SETUP" by simp
  from s(2) have "st' = st\<lparr>settings := (settings st)\<lparr>threshold := v\<rparr>, clock := t\<rparr>"
    by (simp add: cooldownEffect_def)
  with g show ?thesis by simp
qed

lemma step_tick:
  assumes "step cv st (t, CooldownTimeout) = Some st'"
  shows "clock st \<le> t \<and> (\<exists>due. cooldownTimer st = Some due \<and> due \<le> t) \<and>
    st' = st\<lparr>cooldownRemaining := cooldownRemaining st - 1,
            cooldownTimer := (if cooldownRemaining st - 1 > 0 then Some (t + 1000) else None),
            clock := t\<rparr>"
proof -
  note s = step_elims[OF assms]
  from s(1) have g: "clock st \<le> t \<and> (\<exists>due. cooldownTimer st = Some due \<and> due \<le> t)"
    by (simp split: option.splits)
  from s(2) have "st' = st\<lparr>cooldownRemaining := cooldownRemaining st - 1,
            cooldownTimer := (if cooldownRemaining st - 1 > 0 then Some (t + 1000) else None),
            clock := t\<rparr>"
    by (simp add: cooldownTick_def cooldownEffect_def)
  with g show ?thesis by simp
qed

lemma step_roundTimeout:
  assumes "step cv st (t, RoundTimeout) = Some st'"
  shows "clock st \<le> t \<and> (\<exists>due shs rest. roundTimers st = (due, shs) # rest \<and> due \<le> t \<and>
    st' = st\<lparr>roundTimers := rest,
            history := \<lparr>roundNumber = length (history st) + 1,
                        totalScore = foldl (\<lambda>a b. a + score b) 0 shs, shots = shs\<rparr> # history st,
            mode := ROUND_OVER, clock := t\<rparr>)"
proof -
  note s = step_elims[OF assms]
  from s(1) have c: "clock st \<le> t" by simp
  from s(1) obtain due shs rest where r: "roundTimers st = (due, shs) # rest" "due \<le> t"
    by (cases "roundTimers st") auto
  from s(2) r have "st' = st\<lparr>roundTimers := rest,
            history := \<lparr>roundNumber = length (history st) + 1,
                        totalScore = foldl (\<lambda>a b. a + score b) 0 shs, shots = shs\<rparr> # history st,
            mode := ROUND_OVER, clock := t\<rparr>"
    by (simp add: finishRound_def cooldownEffect_def Let_def)
  with c r show ?thesis by blast
qed

lemma step_matrixInv:
  assumes inv: "matrixInv st" and s: "step cv st ev = Some st'"
  shows "matrixInv st'"
proof -
  obtain t e where ev: "ev = (t, e)" by (cases ev)
  note s' = s[unfolded ev]
  show ?thesis
  proof (cases e)
    case (AnimationFrame f)
    from step_frame[OF s'[unfolded AnimationFrame]] inv show ?thesis by (auto simp: matrixInv_def)
  next
    case LockTarget
    from step_lock[OF s'[unfolded LockTarget]] inv show ?thesis by (auto simp: matrixInv_def)
  next
    case StartNewRound
    from step_newRound[OF s'[unfolded StartNewRound]] inv show ?thesis by (auto simp: matrixInv_def)
  next
    case ResetToSetup
    from step_reset[OF s'[unfolded ResetToSetup]] inv show ?thesis by (auto simp: matrixInv_def)
  next
    case ToggleSetupType
    from step_toggle[OF s'[unfolded ToggleSetupType]] inv show ?thesis by (auto simp: matrixInv_def)
  next
    case (MovePoint i p)
    from step_move[OF s'[unfolded MovePoint]] inv show ?thesis by (auto simp: matrixInv_def)
  next
    case (SetThreshold v)
    from step_threshold[OF s'[unfolded SetThreshold]] inv show ?thesis by (auto simp: matrixInv_def)
  next
    case CooldownTimeout
    from step_tick[OF s'[unfolded CooldownTimeout]] inv show ?thesis by (auto simp: matrixInv_def)
  next
    case RoundTimeout
    from step_roundTimeout[OF s'[unfolded RoundTimeout]] inv show ?thesis by (auto simp: matrixInv_def)
  qed
qed



lemmas eval_simps = step_def initState_def lockTarget_def orderCorners_def withSumDiff_def
  mkPoint_def cooldownEffect_def resetToSetup_def startNewRound_def rectCV_def Let_def
  cooldownTick_def finishRound_def

lemma manualLockTrace_run: "run rectCV initState manualLockTrace = Some lockedState"
  by (simp add: manualLockTrace_def lockedState_def eval_simps)

lemma lockedReset_run:
  "run rectCV initState (manualLockTrace @ [(2000, ResetToSetup)]) = Some lockedResetState"
  by (simp add: manualLockTrace_def lockedState_def lockedResetState_def eval_simps)



lemma init_matrixInv: "matrixInv initState"
  by (simp add: matrixInv_def initState_def)



lemma reachable_matrixInv: "run cv initState evs = Some st \<Longrightarrow> matrixInv st"
  by (rule run_invariant[where P = matrixInv, OF step_matrixInv init_matrixInv])



lemma processFrame_setup_ignores_matrix:
  assumes "mode st = SETUP"
  shows "processFrame cv (st\<lparr>transformMatrix := m\<rparr>) t f
       = (processFrame cv st t f)\<lparr>transformMatrix := m\<rparr>"
  using assms by (simp add: processFrame_def split: option.splits prod.splits)

text \<open>
  C1 (as amended): in every reachable state, SHOOT and ROUND_OVER imply that a matrix is
  stored. \<open>resetToSetup\<close> does not touch the matrix, and while the mode is SETUP a frame
  is processed without consulting it.
\<close>

theorem matrix_present_when_shooting:
  assumes "run cv initState evs = Some st"
  shows "(mode st = SHOOT \<or> mode st = ROUND_OVER \<longrightarrow> transformMatrix st \<noteq> None)
     \<and> transformMatrix (resetToSetup st) = transformMatrix st
     \<and> (mode st = SETUP \<longrightarrow>
          processFrame cv (st\<lparr>transformMatrix := m\<rparr>) t f
            = (processFrame cv st t f)\<lparr>transformMatrix := m\<rparr>)"
proof -
  from reachable_matrixInv[OF assms]
  have "mode st = SHOOT \<or> mode st = ROUND_OVER \<longrightarrow> transformMatrix st \<noteq> None"
    by (auto simp: matrixInv_def)
  moreover have "transformMatrix (resetToSetup st) = transformMatrix st"
    by (simp add: resetToSetup_def)
  ultimately show ?thesis using processFrame_setup_ignores_matrix[of st cv m t f] by blast
qed

theorem matrix_present_when_shooting_witness:
  "run rectCV initState manualLockTrace = Some lockedState
   \<and> mode lockedState = SHOOT \<and> transformMatrix lockedState \<noteq> None
   \<and> run rectCV initState [] = Some initState \<and> mode (initState :: real list State) = SETUP
   \<and> processFrame rectCV ((initState :: real list State)\<lparr>transformMatrix := Some []\<rparr>) 0
        \<lparr>bestApprox = None, frameData = [], frameWidth = 1\<rparr>
      = (processFrame rectCV initState 0
        \<lparr>bestApprox = None, frameData = [], frameWidth = 1\<rparr>)\<lparr>transformMatrix := Some []\<rparr>"
proof -
  have r0: "run rectCV initState [] = Some (initState :: real list State)" by simp
  have m0: "mode (initState :: real list State) = SETUP" by (simp add: initState_def)
  have m1: "mode lockedState = SHOOT" by (simp add: lockedState_def)
  from matrix_present_when_shooting[OF manualLockTrace_run]
    matrix_present_when_shooting[OF r0, of "Some []" 0 "\<lparr>bestApprox = None, frameData = [], frameWidth = 1\<rparr>"]
    manualLockTrace_run r0 m0 m1
  show ?thesis by simp
qed

text \<open>
  C1 as stated fails: after a lock and a reset the mode is SETUP and the matrix of the
  lock is still stored.
\<close>

theorem matrix_survives_reset_counterexample:
  "run rectCV initState (manualLockTrace @ [(2000, ResetToSetup)]) = Some lockedResetState
   \<and> mode lockedResetState = SETUP
   \<and> transformMatrix lockedResetState = Some [100, 100, 500, 100, 500, 400, 100, 400]"
  using lockedReset_run by (simp add: lockedResetState_def lockedState_def)






subsection \<open>Debounce, cooldown and round completion\<close>

lemma run_invariant_restricted:
  assumes step: "\<And>st ev st'. P st \<Longrightarrow> Q ev \<Longrightarrow> step cv st ev = Some st' \<Longrightarrow> P st'"
    and init: "P st0" and r: "run cv st0 evs = Some st" and q: "\<forall>ev\<in>set evs. Q ev"
  shows "P st"
  using init r q
proof (induction evs arbitrary: st0)
  case Nil then show ?case by simp
next
  case (Cons ev evs)
  from Cons.prems(2) obtain st1 where s1: "step cv st0 ev = Some st1" "run cv st1 evs = Some st"
    by (auto split: option.splits)
  from Cons.prems(3) have qe: "Q ev" and qs: "\<forall>ev\<in>set evs. Q ev" by simp_all
  from step[OF Cons.prems(1) qe s1(1)] have "P st1" .
  from Cons.IH[OF this s1(2) qs] show ?case .
qed

lemma step_shotAfter:
  assumes inv: "shotAfter c st" and s: "step cv st ev = Some st'"
  shows "shotAfter c st'"
proof -
  obtain t e where ev: "ev = (t, e)" by (cases ev)
  note s' = s[unfolded ev]
  show ?thesis
  proof (cases e)
    case (AnimationFrame f)
    from step_frame[OF s'[unfolded AnimationFrame]] inv show ?thesis by (auto simp: shotAfter_def)
  next
    case LockTarget
    from step_lock[OF s'[unfolded LockTarget]] inv show ?thesis by (auto simp: shotAfter_def)
  next
    case StartNewRound
    from step_newRound[OF s'[unfolded StartNewRound]] inv show ?thesis by (auto simp: shotAfter_def)
  next
    case ResetToSetup
    from step_reset[OF s'[unfolded ResetToSetup]] inv show ?thesis by (auto simp: shotAfter_def)
  next
    case ToggleSetupType
    from step_toggle[OF s'[unfolded ToggleSetupType]] inv show ?thesis by (auto simp: shotAfter_def)
  next
    case (MovePoint i p)
    from step_move[OF s'[unfolded MovePoint]] inv show ?thesis by (auto simp: shotAfter_def)
  next
    case (SetThreshold v)
    from step_threshold[OF s'[unfolded SetThreshold]] inv show ?thesis by (auto simp: shotAfter_def)
  next
    case CooldownTimeout
    from step_tick[OF s'[unfolded CooldownTimeout]] inv show ?thesis by (auto simp: shotAfter_def)
  next
    case RoundTimeout
    from step_roundTimeout[OF s'[unfolded RoundTimeout]] inv show ?thesis by (auto simp: shotAfter_def)
  qed
qed

lemma accepted_frame:
  assumes s: "step cv s0 (t1, AnimationFrame f1) = Some s1"
    and acc: "currentRoundShots s1 \<noteq> currentRoundShots s0"
  shows "mode s0 = SHOOT" "transformMatrix s0 \<noteq> None" "cooldownRemaining s0 = 0"
    "\<not> t1 - lastShotTimestamp s0 < 500" "clock s0 \<le> t1"
    "\<exists>tx ty. s1 = s0\<lparr>lastShotTimestamp := t1, cooldownRemaining := 3,
                currentRoundShots := currentRoundShots s0 @ [acceptedShot s0 t1 tx ty],
                roundTimers := (if length (currentRoundShots s0) \<ge> 4
                   then roundTimers s0 @ [(t1 + 1500, currentRoundShots s0 @ [acceptedShot s0 t1 tx ty])]
                   else roundTimers s0),
                cooldownTimer := Some (t1 + 1000), clock := t1\<rparr>"
proof -
  let ?shot = "mode s0 = SHOOT \<and> transformMatrix s0 \<noteq> None \<and> cooldownRemaining s0 = 0
          \<and> \<not> t1 - lastShotTimestamp s0 < 500
          \<and> (\<exists>tx ty. s1 = s0\<lparr>lastShotTimestamp := t1, cooldownRemaining := 3,
                currentRoundShots := currentRoundShots s0 @ [acceptedShot s0 t1 tx ty],
                roundTimers := (if length (currentRoundShots s0) \<ge> 4
                   then roundTimers s0 @ [(t1 + 1500, currentRoundShots s0 @ [acceptedShot s0 t1 tx ty])]
                   else roundTimers s0),
                cooldownTimer := Some (t1 + 1000), clock := t1\<rparr>)"
  from step_frame[OF s] have c: "clock s0 \<le> t1"
    and d: "s1 = s0\<lparr>clock := t1\<rparr>
     \<or> (mode s0 = SETUP \<and> (\<exists>a b c d. s1 = s0\<lparr>targetFound := True, targetQuad := [a, b, c, d], clock := t1\<rparr>))
     \<or> (mode s0 = SETUP \<and> s1 = s0\<lparr>targetFound := False, clock := t1\<rparr>)
     \<or> ?shot"
    by blast+
  have n1: "s1 \<noteq> s0\<lparr>clock := t1\<rparr>" using acc by auto
  have n2: "\<not> (\<exists>a b c d. s1 = s0\<lparr>targetFound := True, targetQuad := [a, b, c, d], clock := t1\<rparr>)"
    using acc by auto
  have n3: "s1 \<noteq> s0\<lparr>targetFound := False, clock := t1\<rparr>" using acc by auto
  from d n1 n2 n3 have sh: ?shot by blast
  from c show "clock s0 \<le> t1" .
  from sh show "mode s0 = SHOOT" "transformMatrix s0 \<noteq> None" "cooldownRemaining s0 = 0"
    "\<not> t1 - lastShotTimestamp s0 < 500" by blast+
  from sh show "\<exists>tx ty. s1 = s0\<lparr>lastShotTimestamp := t1, cooldownRemaining := 3,
                currentRoundShots := currentRoundShots s0 @ [acceptedShot s0 t1 tx ty],
                roundTimers := (if length (currentRoundShots s0) \<ge> 4
                   then roundTimers s0 @ [(t1 + 1500, currentRoundShots s0 @ [acceptedShot s0 t1 tx ty])]
                   else roundTimers s0),
                cooldownTimer := Some (t1 + 1000), clock := t1\<rparr>" by blast
qed

lemma processFrame_debounced:
  assumes "t - lastShotTimestamp st < 500"
  shows "currentRoundShots (processFrame cv st t f) = currentRoundShots st"
    and "lastShotTimestamp (processFrame cv st t f) = lastShotTimestamp st"
  using assms by (cases rule: processFrame_cases[of cv st t f]; simp)+

lemma processFrame_cooling:
  assumes "cooldownRemaining st \<noteq> 0"
  shows "currentRoundShots (processFrame cv st t f) = currentRoundShots st"
  using assms by (cases rule: processFrame_cases[of cv st t f]; simp)

text \<open>
  C7: when a frame at time \<open>t1\<close> produced an accepted shot, then after any further events a
  detection at a time \<open>t2\<close> less than 500 ms after \<open>t1\<close> is suppressed, in \<open>processFrame\<close>
  and again in \<open>handleShot\<close>: nothing is appended to the round in progress.
\<close>

theorem debounce_suppresses_close_detection:
  assumes s: "step cv s0 (t1, AnimationFrame f1) = Some s1"
    and acc: "currentRoundShots s1 \<noteq> currentRoundShots s0"
    and r: "run cv s1 evs = Some s2"
    and close: "t2 - t1 < 500"
  shows "currentRoundShots (processFrame cv s2 t2 f2) = currentRoundShots s2
       \<and> handleShot s2 t2 tx ty = s2"
proof -
  from accepted_frame(6)[OF s acc] have "lastShotTimestamp s1 = t1" by auto
  then have "shotAfter t1 s1" by (simp add: shotAfter_def)
  from run_invariant[where P = "shotAfter t1", OF step_shotAfter this r]
  have "t1 \<le> lastShotTimestamp s2" by (simp add: shotAfter_def)
  with close have d: "t2 - lastShotTimestamp s2 < 500" by linarith
  from processFrame_debounced(1)[OF d] handleShot_reject[OF d] show ?thesis by simp
qed

lemma step_cooldownInv:
  assumes inv: "cooldownInv t1 st" and q: "snd ev \<noteq> ResetToSetup \<and> snd ev \<noteq> StartNewRound"
    and s: "step cv st ev = Some st'"
  shows "cooldownInv t1 st'"
proof -
  obtain t e where ev: "ev = (t, e)" by (cases ev)
  note s' = s[unfolded ev]
  show ?thesis
  proof (cases e)
    case (AnimationFrame f)
    from step_frame[OF s'[unfolded AnimationFrame]] inv show ?thesis by (auto simp: cooldownInv_def)
  next
    case LockTarget
    from step_lock[OF s'[unfolded LockTarget]] inv show ?thesis by (auto simp: cooldownInv_def)
  next
    case StartNewRound
    with q ev show ?thesis by simp
  next
    case ResetToSetup
    with q ev show ?thesis by simp
  next
    case ToggleSetupType
    from step_toggle[OF s'[unfolded ToggleSetupType]] inv show ?thesis by (auto simp: cooldownInv_def)
  next
    case (MovePoint i p)
    from step_move[OF s'[unfolded MovePoint]] inv show ?thesis by (auto simp: cooldownInv_def)
  next
    case (SetThreshold v)
    from step_threshold[OF s'[unfolded SetThreshold]] inv show ?thesis by (auto simp: cooldownInv_def)
  next
    case CooldownTimeout
    from step_tick[OF s'[unfolded CooldownTimeout]] inv show ?thesis by (auto simp: cooldownInv_def)
  next
    case RoundTimeout
    from step_roundTimeout[OF s'[unfolded RoundTimeout]] inv show ?thesis by (auto simp: cooldownInv_def)
  qed
qed

text \<open>
  C8 (as amended): an accepted shot sets the cooldown counter to 3; while the counter is
  nonzero no frame adds a shot; and as long as neither \<open>resetToSetup\<close> nor \<open>startNewRound\<close>
  intervenes, no frame earlier than 3000 ms after the accepted shot adds a shot.
\<close>

theorem cooldown_blocks_next_shot:
  assumes s: "step cv s0 (t1, AnimationFrame f1) = Some s1"
    and acc: "currentRoundShots s1 \<noteq> currentRoundShots s0"
    and r: "run cv s1 evs = Some s2"
    and nr: "\<forall>ev\<in>set evs. snd ev \<noteq> ResetToSetup \<and> snd ev \<noteq> StartNewRound"
    and s2: "step cv s2 (t2, AnimationFrame f2) = Some s3"
    and early: "t2 < t1 + 3000"
  shows "cooldownRemaining s1 = 3
       \<and> currentRoundShots s3 = currentRoundShots s2
       \<and> (cooldownRemaining st \<noteq> 0 \<longrightarrow>
            currentRoundShots (processFrame cv st t f) = currentRoundShots st)"
proof -
  from accepted_frame(6)[OF s acc] have c1: "cooldownRemaining s1 = 3"
    and tm: "cooldownTimer s1 = Some (t1 + 1000)" by auto
  then have "cooldownInv t1 s1" by (simp add: cooldownInv_def)
  from run_invariant_restricted[where P = "cooldownInv t1"
      and Q = "\<lambda>ev. snd ev \<noteq> ResetToSetup \<and> snd ev \<noteq> StartNewRound",
      OF step_cooldownInv this r nr]
  have inv: "cooldownInv t1 s2" .
  have "currentRoundShots s3 = currentRoundShots s2"
  proof (rule ccontr)
    assume "currentRoundShots s3 \<noteq> currentRoundShots s2"
    from accepted_frame(3,5)[OF s2 this] have "cooldownRemaining s2 = 0" "clock s2 \<le> t2" .
    with inv have "t1 + 3000 \<le> t2" by (simp add: cooldownInv_def)
    with early show False by simp
  qed
  with c1 processFrame_cooling[of st cv t f] show ?thesis by blast
qed

lemma aimTrace_run: "run rectCV initState aimTrace = Some aimedState"
  by (simp add: aimTrace_def aimedState_def eval_simps)

lemma hitFrame_detect: "detectLaser (frameData hitFrame) 200 (frameWidth hitFrame) = Some (2, 1)"
  by (simp add: hitFrame_def detectLaser_def scanFrame_def scanLoop.simps qualifies_def sample_def)

lemma shotScore_250_350: "shotScore 250 350 = 10"
  by (rule shotScore_center[OF centerDist_250_350])

lemma hitFrame_accept:
  assumes "mode st = SHOOT" "transformMatrix st = Some [0, 0, 4, 0, 4, 2, 0, 2]"
    "cooldownRemaining st = 0" "\<not> t - lastShotTimestamp st < 500"
    "threshold (settings st) = 200"
  shows "processFrame rectCV st t hitFrame = handleShot st t 250 350"
proof -
  have w: "frameWidth hitFrame \<noteq> 0" by (simp add: hitFrame_def)
  have a: "perspectiveTransform rectCV [0, 0, 4, 0, 4, 2, 0, 2] (real 2, real 1) = Some (250, 350)"
    by (simp add: rectCV_def rectApply_def)
  show ?thesis
    unfolding processFrame_def using assms w a hitFrame_detect by simp
qed

lemma firstShot_step:
  "step rectCV aimedState (1000, AnimationFrame hitFrame) = Some firstShotState"
proof -
  have "processFrame rectCV aimedState 1000 hitFrame = handleShot aimedState 1000 250 350"
    by (rule hitFrame_accept) (simp_all add: aimedState_def initState_def)
  then show ?thesis
    by (simp add: step_def handleShot_def shotScore_250_350 cooldownEffect_def
        aimedState_def initState_def firstShotState_def centerShot_def Let_def)
qed

lemma relock_run:
  "run rectCV firstShotState [(1100, ResetToSetup), (1200, LockTarget)] = Some relockedState"
  by (simp add: firstShotState_def aimedState_def relockedState_def eval_simps)

lemma secondShot_step:
  "step rectCV relockedState (1500, AnimationFrame hitFrame) = Some secondShotState"
proof -
  have "processFrame rectCV relockedState 1500 hitFrame = handleShot relockedState 1500 250 350"
    by (rule hitFrame_accept) (simp_all add: relockedState_def aimedState_def initState_def)
  then show ?thesis
    by (simp add: step_def handleShot_def shotScore_250_350 cooldownEffect_def relockedState_def
        aimedState_def initState_def secondShotState_def centerShot_def Let_def)
qed

lemma cooling_run:
  "run rectCV firstShotState [(2000, CooldownTimeout), (3000, CooldownTimeout)] = Some coolingState"
  by (simp add: firstShotState_def aimedState_def coolingState_def eval_simps)

lemma cooling_frame:
  "step rectCV coolingState (3500, AnimationFrame hitFrame) = Some (coolingState\<lparr>clock := 3500\<rparr>)"
  by (simp add: step_def processFrame_def coolingState_def firstShotState_def aimedState_def
      initState_def cooldownEffect_def hitFrame_def)

theorem debounce_suppresses_close_detection_witness:
  "step rectCV aimedState (1000, AnimationFrame hitFrame) = Some firstShotState
   \<and> currentRoundShots firstShotState \<noteq> currentRoundShots aimedState
   \<and> run rectCV firstShotState [(1100, ResetToSetup), (1200, LockTarget)] = Some relockedState
   \<and> (1400::int) - 1000 < 500
   \<and> currentRoundShots (processFrame rectCV relockedState 1400 hitFrame)
        = currentRoundShots relockedState
   \<and> handleShot relockedState 1400 250 350 = relockedState"
proof -
  have acc: "currentRoundShots firstShotState \<noteq> currentRoundShots aimedState"
    by (simp add: firstShotState_def aimedState_def initState_def)
  have c: "(1400::int) - 1000 < 500" by simp
  from debounce_suppresses_close_detection[OF firstShot_step acc relock_run c, of hitFrame 250 350]
    firstShot_step acc relock_run
  show ?thesis by simp
qed

theorem cooldown_blocks_next_shot_witness:
  "step rectCV aimedState (1000, AnimationFrame hitFrame) = Some firstShotState
   \<and> currentRoundShots firstShotState \<noteq> currentRoundShots aimedState
   \<and> run rectCV firstShotState [(2000, CooldownTimeout), (3000, CooldownTimeout)]
        = Some coolingState
   \<and> step rectCV coolingState (3500, AnimationFrame hitFrame) = Some (coolingState\<lparr>clock := 3500\<rparr>)
   \<and> (3500::int) < 1000 + 3000
   \<and> cooldownRemaining firstShotState = 3
   \<and> currentRoundShots (coolingState\<lparr>clock := 3500\<rparr>) = currentRoundShots coolingState
   \<and> cooldownRemaining coolingState \<noteq> 0
   \<and> currentRoundShots (processFrame rectCV coolingState 3500 hitFrame)
        = currentRoundShots coolingState"
proof -
  have acc: "currentRoundShots firstShotState \<noteq> currentRoundShots aimedState"
    by (simp add: firstShotState_def aimedState_def initState_def)
  have nr: "\<forall>ev\<in>set [(2000, CooldownTimeout), (3000, CooldownTimeout)].
      snd ev \<noteq> ResetToSetup \<and> snd ev \<noteq> StartNewRound" by simp
  have e: "(3500::int) < 1000 + 3000" by simp
  have nz: "cooldownRemaining coolingState \<noteq> 0" by (simp add: coolingState_def)
  from cooldown_blocks_next_shot[OF firstShot_step acc cooling_run nr cooling_frame e,
      of coolingState 3500 hitFrame]
    firstShot_step acc cooling_run cooling_frame nz
  show ?thesis by simp
qed

text \<open>
  C8 as stated fails: a shot is accepted at 1000 ms; the user resets and locks again, which
  zeroes the cooldown counter; the next shot is accepted at 1500 ms, well before the three
  seconds are over.
\<close>

theorem cooldown_cut_short_by_reset_counterexample:
  "run rectCV initState (aimTrace @ [(1000, AnimationFrame hitFrame)]) = Some firstShotState
   \<and> map timestamp (currentRoundShots firstShotState) = [1000]
   \<and> run rectCV firstShotState
        [(1100, ResetToSetup), (1200, LockTarget), (1500, AnimationFrame hitFrame)]
      = Some secondShotState
   \<and> map timestamp (currentRoundShots secondShotState) = [1500]
   \<and> (1500::int) < 1000 + 3000"
proof -
  have r1: "run rectCV initState (aimTrace @ [(1000, AnimationFrame hitFrame)]) = Some firstShotState"
    by (simp add: run_append aimTrace_run firstShot_step)
  have r2: "run rectCV firstShotState
        ([(1100, ResetToSetup), (1200, LockTarget)] @ [(1500, AnimationFrame hitFrame)])
      = Some secondShotState"
    unfolding run_append relock_run by (simp add: secondShot_step)
  show ?thesis using r1 r2
    by (simp add: firstShotState_def secondShotState_def centerShot_def)
qed

lemma shot_cycle:
  assumes "mode st = SHOOT" "transformMatrix st = Some [0, 0, 4, 0, 4, 2, 0, 2]"
    "cooldownRemaining st = 0" "cooldownTimer st = None" "lastShotTimestamp st + 500 \<le> t"
    "threshold (settings st) = 200" "clock st \<le> t" "history st = []"
    "length (currentRoundShots st) < 4"
  shows "run rectCV st [(t, AnimationFrame hitFrame), (t + 1000, CooldownTimeout),
            (t + 2000, CooldownTimeout), (t + 3000, CooldownTimeout)]
       = Some (st\<lparr>lastShotTimestamp := t,
                  currentRoundShots := currentRoundShots st @ [centerShot t],
                  clock := t + 3000\<rparr>)"
proof -
  have d: "\<not> t - lastShotTimestamp st < 500" using assms(5) by simp
  have p: "processFrame rectCV st t hitFrame = handleShot st t 250 350"
    by (rule hitFrame_accept[OF assms(1,2,3) d assms(6)])
  have s1: "step rectCV st (t, AnimationFrame hitFrame)
      = Some (st\<lparr>lastShotTimestamp := t, cooldownRemaining := 3,
                currentRoundShots := currentRoundShots st @ [centerShot t],
                cooldownTimer := Some (t + 1000), clock := t\<rparr>)"
    using assms d p
    by (simp add: step_def handleShot_def shotScore_250_350 cooldownEffect_def centerShot_def Let_def)
  let ?s1 = "st\<lparr>lastShotTimestamp := t, cooldownRemaining := 3,
                currentRoundShots := currentRoundShots st @ [centerShot t],
                cooldownTimer := Some (t + 1000), clock := t\<rparr>"
  have ticks: "run rectCV ?s1 [(t + 1000, CooldownTimeout),
            (t + 2000, CooldownTimeout), (t + 3000, CooldownTimeout)]
       = Some (st\<lparr>lastShotTimestamp := t,
                  currentRoundShots := currentRoundShots st @ [centerShot t],
                  clock := t + 3000\<rparr>)"
    using assms(3,4) by (simp add: step_def cooldownTick_def cooldownEffect_def)
  show ?thesis
    unfolding run.simps(2)[of rectCV st "(t, AnimationFrame hitFrame)"] s1 option.case
    by (rule ticks)
qed

lemma fourShotTrace_run: "run rectCV aimedState fourShotTrace = Some fourShotsState"
proof -
  let ?c = "\<lambda>t. [(t, AnimationFrame hitFrame), (t + 1000, CooldownTimeout),
            (t + 2000, CooldownTimeout), (t + 3000, CooldownTimeout)]"
  let ?s1 = "aimedState\<lparr>lastShotTimestamp := 1000,
      currentRoundShots := [centerShot 1000], clock := 4000\<rparr>"
  let ?s2 = "aimedState\<lparr>lastShotTimestamp := 4000,
      currentRoundShots := [centerShot 1000, centerShot 4000], clock := 7000\<rparr>"
  let ?s3 = "aimedState\<lparr>lastShotTimestamp := 7000,
      currentRoundShots := [centerShot 1000, centerShot 4000, centerShot 7000], clock := 10000\<rparr>"
  have t: "fourShotTrace = ?c 1000 @ ?c 4000 @ ?c 7000 @ ?c 10000"
    by (simp add: fourShotTrace_def)
  have r1: "run rectCV aimedState (?c 1000) = Some ?s1"
    using shot_cycle[of aimedState 1000] by (simp add: aimedState_def initState_def)
  have r2: "run rectCV ?s1 (?c 4000) = Some ?s2"
    using shot_cycle[of ?s1 4000] by (simp add: aimedState_def initState_def)
  have r3: "run rectCV ?s2 (?c 7000) = Some ?s3"
    using shot_cycle[of ?s2 7000] by (simp add: aimedState_def initState_def)
  have r4: "run rectCV ?s3 (?c 10000) = Some fourShotsState"
    using shot_cycle[of ?s3 10000] by (simp add: aimedState_def initState_def fourShotsState_def)
  show ?thesis
    unfolding t run_append r1 option.case r2 r3 r4 by (rule refl)
qed

lemma fifthShot_step:
  "step rectCV fourShotsState (13000, AnimationFrame hitFrame) = Some fifthShotState"
proof -
  have "processFrame rectCV fourShotsState 13000 hitFrame = handleShot fourShotsState 13000 250 350"
    by (rule hitFrame_accept) (simp_all add: fourShotsState_def aimedState_def initState_def)
  then show ?thesis
    by (simp add: step_def handleShot_def shotScore_250_350 cooldownEffect_def fourShotsState_def
        aimedState_def initState_def fifthShotState_def roundShots_def centerShot_def Let_def)
qed

lemma fifthShot_run:
  "run rectCV initState (aimTrace @ fourShotTrace @ [(13000, AnimationFrame hitFrame)])
     = Some fifthShotState"
  unfolding run_append aimTrace_run option.case fourShotTrace_run
  by (simp add: fifthShot_step)

lemma resetPending_step:
  "step rectCV fifthShotState (13100, ResetToSetup) = Some resetPendingState"
  by (simp add: fifthShotState_def resetPendingState_def aimedState_def eval_simps)

lemma staleSealed_step:
  "step rectCV resetPendingState (14500, RoundTimeout) = Some staleSealedState"
  by (simp add: staleSealedState_def resetPendingState_def fifthShotState_def aimedState_def
      roundShots_def centerShot_def eval_simps)


text \<open>
  C2, the code at the failing input: the fifth shot at 13000 ms schedules the round timeout
  for 14500 ms; the reset at 13100 ms puts the session into SETUP with an empty history and
  leaves the timeout pending; when it fires, it seals the discarded round into the history
  and switches the session from SETUP to ROUND_OVER.
\<close>

theorem stale_round_timeout_seals_after_reset:
  "run rectCV initState (aimTrace @ fourShotTrace @ [(13000, AnimationFrame hitFrame)])
     = Some fifthShotState
   \<and> roundTimers fifthShotState = [(14500, roundShots)]
   \<and> step rectCV fifthShotState (13100, ResetToSetup) = Some resetPendingState
   \<and> mode resetPendingState = SETUP
   \<and> history resetPendingState = []
   \<and> currentRoundShots resetPendingState = []
   \<and> roundTimers resetPendingState = [(14500, roundShots)]
   \<and> step rectCV resetPendingState (14500, RoundTimeout) = Some staleSealedState
   \<and> mode staleSealedState = ROUND_OVER
   \<and> history staleSealedState = [\<lparr>roundNumber = 1, totalScore = 50, shots = roundShots\<rparr>]"
  using fifthShot_run resetPending_step staleSealed_step
  by (simp add: fifthShotState_def resetPendingState_def staleSealedState_def aimedState_def
      initState_def)








end
